theory Spec2Isabelle
  imports Main "HOL-Library.Multiset"
begin

section \<open>dbmigrate: the migration chain resolver and the transactional applier\<close>

subsection \<open>Data model\<close>

text \<open>
  The struct \<^verbatim>\<open>Migration\<close> of migrate.go. The two hooks are nil-able function values;
  their type is the parameter \<open>'h\<close>, which the resolver never looks at.
\<close>

record 'h Migration =
  Previous :: string
  ID :: string
  Desc :: string
  Stmt :: string
  PreUpgrade :: "'h option"
  PostUpgrade :: "'h option"
  DisableFK :: bool

text \<open>
  Go \<^verbatim>\<open>error\<close> values. One constructor for each place of the package that creates or wraps
  an error (the comment gives the format string), \<open>External\<close> for an error value made outside
  the package (the SQL driver, a hook) and \<open>ErrNoRows\<close> for \<^verbatim>\<open>sql.ErrNoRows\<close>, the one
  foreign error the package compares against.
\<close>

datatype error =
    EmptyID  \<comment> \<open>migration ID cannot be empty\<close>
  | DuplicateID string string  \<comment> \<open>migration with ID %q already exists, parent migration %q\<close>
  | DuplicatePrevious string string  \<comment> \<open>migration with ID %q already exists, next migration %q\<close>
  | InvalidPrevious string string  \<comment> \<open>migration %q has invalid previous migration ID %q\<close>
  | NotCorrelated  \<comment> \<open>provided migration does not correlate with already applied migrations\<close>
  | TargetNotFound string  \<comment> \<open>target migration with ID %q not found\<close>
  | External string
  | ErrNoRows
  | CreatingMigrationTable error  \<comment> \<open>creating migration table: %w\<close>
  | ScanRow error  \<comment> \<open>scan row: %w\<close>
  | RowsScan error  \<comment> \<open>rows scan: %w\<close>
  | SqliteEnablingFK error  \<comment> \<open>sqlite: error enabling foreign keys: %w\<close>
  | SqliteDisableFK error  \<comment> \<open>sqlite: disable FK constraints: %w (enableFKs and disableFKs both)\<close>
  | SqliteSaveLog error  \<comment> \<open>sqlite: save migration info to db: %w\<close>
  | MysqlSaveLog error  \<comment> \<open>mysql: save migration info to db: %w\<close>
  | PreUpgradeFailed string error  \<comment> \<open>migration %q, pre-upgrade method failed: %v\<close>
  | PostUpgradeFailed string error  \<comment> \<open>migration %q, post-upgrade method failed: %v\<close>
  | MigrationFailed string error  \<comment> \<open>migration %q failed: %w (applyMigration and Upgrade)\<close>

text \<open>Run-time panics: the ones the Go runtime raises, the one of newDialectSupp, and a
  panic raised inside a hook (wrapTx recovers and re-raises those).\<close>

datatype panic =
    NilDereference
  | SliceBounds
  | UnsupportedDialect string  \<comment> \<open>unsupported dialect: %q\<close>
  | HookPanic string

text \<open>
  How a call ends: it returns a value with a nil error, it returns a non-nil error (and the
  zero value), or it panics.
\<close>

datatype 'a outcome = Returned 'a | Failed error | Panicked panic

subsection \<open>findMigrationsToApply (part 000)\<close>

text \<open>
  \<open>mMap\<close> is \<^verbatim>\<open>map[string]*Migration\<close> (a missing key reads as the nil pointer, here
  \<open>None\<close>), \<open>rmMap\<close> is \<^verbatim>\<open>map[string]string\<close> and \<open>aMap\<close>, a
  \<^verbatim>\<open>map[string]struct{}\<close>, is the set of its keys.
\<close>

type_synonym 'h mMap = "string \<rightharpoonup> 'h Migration"
type_synonym rmMap = "string \<rightharpoonup> string"

text \<open>
  Lines 122-144: the first loop over \<^verbatim>\<open>migrations\<close>. It fills \<open>mMap\<close> and \<open>rmMap\<close>,
  updates \<open>appliedFound\<close> and returns at the first empty id, duplicate id or duplicate
  previous.
\<close>

fun indexMigrations ::
  "string set \<Rightarrow> 'h Migration list \<Rightarrow> 'h mMap \<times> rmMap \<times> bool
     \<Rightarrow> error + 'h mMap \<times> rmMap \<times> bool" where
  "indexMigrations aMap [] st = Inr st"
| "indexMigrations aMap (m # ms) (mMap, rmMap, appliedFound) =
     (if ID m = [] then Inl EmptyID
      else
        let appliedFound' =
              (if \<not> appliedFound then (if Previous m \<in> aMap then True else appliedFound)
               else appliedFound)
        in case mMap (ID m) of
             Some prev \<Rightarrow> Inl (DuplicateID (ID m) (Previous prev))
           | None \<Rightarrow>
               (case rmMap (Previous m) of
                  Some curID \<Rightarrow> Inl (DuplicatePrevious (Previous m) curID)
                | None \<Rightarrow>
                    indexMigrations aMap ms
                      (mMap(ID m \<mapsto> m), rmMap(Previous m \<mapsto> ID m), appliedFound')))"

text \<open>
  Lines 146-155: the second loop. \<open>initialID\<close> is a \<^verbatim>\<open>*string\<close>, nil until the first
  migration whose previous is no key of \<open>mMap\<close>; a second such migration is an error.
\<close>

fun findInitial ::
  "'h mMap \<Rightarrow> 'h Migration list \<Rightarrow> string option \<Rightarrow> error + string option" where
  "findInitial mMap [] initialID = Inr initialID"
| "findInitial mMap (m # ms) initialID =
     (case mMap (Previous m) of
        Some found \<Rightarrow> findInitial mMap ms initialID
      | None \<Rightarrow>
          (case initialID of
             Some s \<Rightarrow> Inl (InvalidPrevious (ID m) (Previous m))
           | None \<Rightarrow> findInitial mMap ms (Some (Previous m))))"

text \<open>
  Lines 167-176: the walk along \<open>rmMap\<close>, started at the string \<open>cur\<close> that
  \<open>initialID\<close> points to (the nil case is in findMigrationsToApply below; after the first
  iteration \<open>initialID\<close> points to \<open>mID\<close> and is never nil). The loop has no bound in
  the source, so the model is a partial function: \<open>None\<close> stands for a walk that never
  ends. \<open>mMap mID\<close> is the pointer appended, nil when the key is missing.
\<close>

partial_function (option) walkChain ::
  "rmMap \<Rightarrow> 'h mMap \<Rightarrow> string \<Rightarrow> 'h Migration option list
     \<Rightarrow> 'h Migration option list option" where
  "walkChain rmMap mMap cur ordered =
     (case rmMap cur of
        None \<Rightarrow> Some ordered
      | Some mID \<Rightarrow> walkChain rmMap mMap mID (ordered @ [mMap mID]))"

declare walkChain.simps [code]

text \<open>
  Lines 178-187: the scan of \<open>ordered\<close>. \<open>i\<close> is the index, the pair is
  (\<open>latestApplied\<close>, \<open>target\<close>). Reading \<^verbatim>\<open>m.ID\<close> through a nil pointer panics.
\<close>

fun scanOrdered ::
  "string set \<Rightarrow> string \<Rightarrow> 'h Migration option list \<Rightarrow> int \<Rightarrow> int \<times> int
     \<Rightarrow> (int \<times> int) outcome" where
  "scanOrdered aMap targetID [] i (latestApplied, target) = Returned (latestApplied, target)"
| "scanOrdered aMap targetID (p # ps) i (latestApplied, target) =
     (case p of
        None \<Rightarrow> Panicked NilDereference
      | Some m \<Rightarrow>
          scanOrdered aMap targetID ps (i + 1)
            (if ID m \<in> aMap then i else latestApplied,
             if ID m = targetID then i + 1 else target))"

text \<open>
  The slice expression \<^verbatim>\<open>s[lo:hi]\<close>. Go panics unless \<open>0 \<le> lo \<le> hi \<le> cap(s)\<close>; the
  model checks against the length. The only slice expression of the package has
  \<open>hi \<le> len(s)\<close> (\<open>target\<close> is the length or an index plus one), so the capacity
  plays no part: lemma \<open>selectRange_no_SliceBounds\<close> below.
\<close>

definition slice :: "'a list \<Rightarrow> int \<Rightarrow> int \<Rightarrow> 'a list outcome" where
  "slice s lo hi =
     (if 0 \<le> lo \<and> lo \<le> hi \<and> hi \<le> int (length s)
      then Returned (take (nat hi - nat lo) (drop (nat lo) s))
      else Panicked SliceBounds)"

text \<open>Lines 178-191: scan, then the empty result or the slice. The nil slice of
  \<^verbatim>\<open>return nil, nil\<close> is the empty list.\<close>

definition selectRange ::
  "string set \<Rightarrow> string \<Rightarrow> 'h Migration option list \<Rightarrow> 'h Migration option list outcome" where
  "selectRange aMap targetID ordered =
     (case scanOrdered aMap targetID ordered 0 (- 1, int (length ordered)) of
        Returned (latestApplied, target) \<Rightarrow>
          if target - 1 \<le> latestApplied then Returned []
          else slice ordered (latestApplied + 1) target
      | Failed e \<Rightarrow> Failed e
      | Panicked p \<Rightarrow> Panicked p)"

text \<open>
  The whole function (lines 112-192). The result is a list of pointers
  (\<^verbatim>\<open>[]*Migration\<close>). The first iteration of the walk reads \<^verbatim>\<open>*initialID\<close>: a nil
  \<open>initialID\<close> panics there.
\<close>

definition findMigrationsToApply ::
  "'h Migration list \<Rightarrow> string list \<Rightarrow> string \<Rightarrow> 'h Migration option list outcome option" where
  "findMigrationsToApply migrations applied targetID =
     (let aMap = set applied;
          appliedFound = (aMap = {})
      in case indexMigrations aMap migrations (Map.empty, Map.empty, appliedFound) of
           Inl e \<Rightarrow> Some (Failed e)
         | Inr (mMap, rmMap, appliedFound') \<Rightarrow>
             (case findInitial mMap migrations None of
                Inl e \<Rightarrow> Some (Failed e)
              | Inr initialID \<Rightarrow>
                  if \<not> appliedFound' then Some (Failed NotCorrelated)
                  else if targetID \<noteq> [] \<and> mMap targetID = None
                  then Some (Failed (TargetNotFound targetID))
                  else
                    (case initialID of
                       None \<Rightarrow> Some (Panicked NilDereference)
                     | Some a \<Rightarrow>
                         (case walkChain rmMap mMap a [] of
                            None \<Rightarrow> None
                          | Some ordered \<Rightarrow> Some (selectRange aMap targetID ordered)))))"

subsection \<open>The database\<close>

text \<open>
  The storage collaborator is outside the package. A call goes through a \<^verbatim>\<open>Querier\<close>:
  the connection (\<^verbatim>\<open>*sql.DB\<close>) or the transaction opened by withTx (\<^verbatim>\<open>*sql.Tx\<close>).
  The state of the world is the trace of the calls made so far; what the database answers
  to a call is any function of that trace, so a theorem for every \<open>driver\<close> holds for every
  database and every sequence of failures. A call that is not in the trace was not made.
\<close>

datatype handle = OnDB | OnTx

datatype call =
    ExecCall handle string "string list"
  | QueryCall handle string
  | BeginCall
  | CommitCall
  | RollbackCall

type_synonym trace = "call list"

text \<open>The result set of a query: what \<^verbatim>\<open>Scan\<close> gives for each row that \<^verbatim>\<open>Next\<close>
  yields, and \<^verbatim>\<open>rows.Err()\<close> after the last one.\<close>

record rows =
  scans :: "(error + string) list"
  rowsErr :: "error option"

record driver =
  execReply :: "trace \<Rightarrow> handle \<Rightarrow> string \<Rightarrow> string list \<Rightarrow> error option"
  queryReply :: "trace \<Rightarrow> handle \<Rightarrow> string \<Rightarrow> error + rows"
  beginReply :: "trace \<Rightarrow> error option"
  commitReply :: "trace \<Rightarrow> error option"
  rollbackReply :: "trace \<Rightarrow> error option"

definition Exec ::
  "driver \<Rightarrow> handle \<Rightarrow> string \<Rightarrow> string list \<Rightarrow> trace \<Rightarrow> error option \<times> trace" where
  "Exec drv q query args tr = (execReply drv tr q query args, tr @ [ExecCall q query args])"

definition Query :: "driver \<Rightarrow> handle \<Rightarrow> string \<Rightarrow> trace \<Rightarrow> (error + rows) \<times> trace" where
  "Query drv q query tr = (queryReply drv tr q query, tr @ [QueryCall q query])"

definition Begin :: "driver \<Rightarrow> trace \<Rightarrow> error option \<times> trace" where
  "Begin drv tr = (beginReply drv tr, tr @ [BeginCall])"

definition Commit :: "driver \<Rightarrow> trace \<Rightarrow> error option \<times> trace" where
  "Commit drv tr = (commitReply drv tr, tr @ [CommitCall])"

definition Rollback :: "driver \<Rightarrow> trace \<Rightarrow> error option \<times> trace" where
  "Rollback drv tr = (rollbackReply drv tr, tr @ [RollbackCall])"

text \<open>
  \<^verbatim>\<open>MigrationFuncType\<close>: a hook is foreign code. It gets the \<^verbatim>\<open>Querier\<close>, may make calls
  and returns nil, returns an error, or panics.
\<close>

type_synonym hook = "driver \<Rightarrow> handle \<Rightarrow> trace \<Rightarrow> unit outcome \<times> trace"

subsection \<open>Helpers of the package (part 000)\<close>

definition createMigrationsSQL :: string where
  "createMigrationsSQL =
     [CHR 0x0A, CHR 0x09, CHR 0x09] @ ''CREATE TABLE IF NOT EXISTS migrations ('' @
     [CHR 0x0A, CHR 0x09, CHR 0x09, CHR 0x09] @ ''id TEXT NOT NULL,'' @
     [CHR 0x0A, CHR 0x09, CHR 0x09, CHR 0x09] @ ''desc TEXT NOT NULL,'' @
     [CHR 0x0A, CHR 0x09, CHR 0x09, CHR 0x09] @ ''at DATETIME NOT NULL'' @
     [CHR 0x0A, CHR 0x09, CHR 0x09] @ '');'' @
     [CHR 0x0A, CHR 0x09]"

definition ensureMigrationsHistoryTableExists ::
  "driver \<Rightarrow> handle \<Rightarrow> trace \<Rightarrow> unit outcome \<times> trace" where
  "ensureMigrationsHistoryTableExists drv q tr =
     (case Exec drv q createMigrationsSQL [] tr of
        (Some err, tr') \<Rightarrow> (Failed (CreatingMigrationTable err), tr')
      | (None, tr') \<Rightarrow> (Returned (), tr'))"

text \<open>
  scanEachRow: the loop over \<^verbatim>\<open>rows.Next()\<close>, then \<^verbatim>\<open>rows.Err()\<close>. \<open>scanRow\<close> is the
  callback; \<open>s\<close> is whatever the callback's closure updates, \<open>cnt\<close> is
  \<^verbatim>\<open>count\<close>. The result is (\<open>rowsProcessed\<close>, \<open>err\<close>) as a sum.
\<close>

fun scanRows ::
  "(error + string) list \<Rightarrow> (error + string \<Rightarrow> 's \<Rightarrow> error option \<times> 's) \<Rightarrow> 's \<Rightarrow> nat
     \<Rightarrow> (error + nat) \<times> 's" where
  "scanRows [] scanRow s cnt = (Inr cnt, s)"
| "scanRows (r # rs) scanRow s cnt =
     (case scanRow r s of
        (Some err, s') \<Rightarrow> (Inl (ScanRow err), s')
      | (None, s') \<Rightarrow> scanRows rs scanRow s' (cnt + 1))"

definition scanEachRow ::
  "rows \<Rightarrow> (error + string \<Rightarrow> 's \<Rightarrow> error option \<times> 's) \<Rightarrow> 's \<Rightarrow> (error + nat) \<times> 's" where
  "scanEachRow rs scanRow s =
     (case scanRows (scans rs) scanRow s 0 of
        (Inl err, s') \<Rightarrow> (Inl err, s')
      | (Inr cnt, s') \<Rightarrow>
          (case rowsErr rs of
             Some err \<Rightarrow> if err = ErrNoRows then (Inr 0, s') else (Inl (RowsScan err), s')
           | None \<Rightarrow> (Inr cnt, s')))"

definition getAppliedMigrations ::
  "driver \<Rightarrow> handle \<Rightarrow> trace \<Rightarrow> string list outcome \<times> trace" where
  "getAppliedMigrations drv q tr =
     (case Query drv q ''SELECT id FROM migrations'' tr of
        (Inl err, tr') \<Rightarrow> (Failed err, tr')
      | (Inr rs, tr') \<Rightarrow>
          (case scanEachRow rs
                  (\<lambda>r res. case r of Inl scanErr \<Rightarrow> (Some scanErr, res)
                                   | Inr id' \<Rightarrow> (None, res @ [id']))
                  [] of
             (Inl err, res) \<Rightarrow> (Failed err, tr')
           | (Inr n, res) \<Rightarrow> (Returned res, tr')))"

text \<open>
  wrapTx: the deferred function runs after \<open>fn\<close>. A panic of \<open>fn\<close> is recovered, the
  transaction rolled back (the result of Rollback dropped) and the panic raised again; an
  error rolls back, nil commits, and a failing Rollback or Commit replaces the error.
\<close>

definition wrapTx ::
  "driver \<Rightarrow> (trace \<Rightarrow> unit outcome \<times> trace) \<Rightarrow> trace \<Rightarrow> unit outcome \<times> trace" where
  "wrapTx drv fn tr =
     (case fn tr of
        (Panicked p, tr1) \<Rightarrow> (Panicked p, snd (Rollback drv tr1))
      | (Failed err, tr1) \<Rightarrow>
          (case Rollback drv tr1 of
             (Some rollbackErr, tr2) \<Rightarrow> (Failed rollbackErr, tr2)
           | (None, tr2) \<Rightarrow> (Failed err, tr2))
      | (Returned u, tr1) \<Rightarrow>
          (case Commit drv tr1 of
             (Some commitErr, tr2) \<Rightarrow> (Failed commitErr, tr2)
           | (None, tr2) \<Rightarrow> (Returned (), tr2)))"

definition withTx ::
  "driver \<Rightarrow> (handle \<Rightarrow> trace \<Rightarrow> unit outcome \<times> trace) \<Rightarrow> trace \<Rightarrow> unit outcome \<times> trace" where
  "withTx drv fn tr =
     (case Begin drv tr of
        (Some err, tr1) \<Rightarrow> (Failed err, tr1)
      | (None, tr1) \<Rightarrow> wrapTx drv (fn OnTx) tr1)"

subsection \<open>Dialects (parts 001 and 002)\<close>

definition DialectSQLite :: string where
  "DialectSQLite = ''sqlite3''"

definition DialectMySQL :: string where
  "DialectMySQL = ''mysql''"

text \<open>The two implementations of the interface \<^verbatim>\<open>dialectSupp\<close>; each method is a
  function by cases on the implementation.\<close>

datatype dialectSupp = SqliteSupp | MysqlSupp

definition newDialectSupp :: "string \<Rightarrow> dialectSupp outcome" where
  "newDialectSupp dialect =
     (if dialect = DialectSQLite then Returned SqliteSupp
      else if dialect = DialectMySQL then Returned MysqlSupp
      else Panicked (UnsupportedDialect dialect))"

fun ensureMigrationLog ::
  "dialectSupp \<Rightarrow> driver \<Rightarrow> handle \<Rightarrow> trace \<Rightarrow> unit outcome \<times> trace" where
  "ensureMigrationLog SqliteSupp drv q tr = ensureMigrationsHistoryTableExists drv q tr"
| "ensureMigrationLog MysqlSupp drv q tr = ensureMigrationsHistoryTableExists drv q tr"

fun ensureFKChecksEnabled ::
  "dialectSupp \<Rightarrow> driver \<Rightarrow> handle \<Rightarrow> trace \<Rightarrow> unit outcome \<times> trace" where
  "ensureFKChecksEnabled SqliteSupp drv q tr =
     (case Exec drv q ''PRAGMA foreign_keys = ON;'' [] tr of
        (Some err, tr') \<Rightarrow> (Failed (SqliteEnablingFK err), tr')
      | (None, tr') \<Rightarrow> (Returned (), tr'))"
| "ensureFKChecksEnabled MysqlSupp drv q tr = (Returned (), tr)"

fun enableFKs ::
  "dialectSupp \<Rightarrow> driver \<Rightarrow> handle \<Rightarrow> trace \<Rightarrow> unit outcome \<times> trace" where
  "enableFKs SqliteSupp drv q tr =
     (case Exec drv q ''PRAGMA foreign_keys = ON; PRAGMA legacy_alter_table = OFF;'' [] tr of
        (Some err, tr') \<Rightarrow> (Failed (SqliteDisableFK err), tr')
      | (None, tr') \<Rightarrow> (Returned (), tr'))"
| "enableFKs MysqlSupp drv q tr = (Returned (), tr)"

fun disableFKs ::
  "dialectSupp \<Rightarrow> driver \<Rightarrow> handle \<Rightarrow> trace \<Rightarrow> unit outcome \<times> trace" where
  "disableFKs SqliteSupp drv q tr =
     (case Exec drv q ''PRAGMA legacy_alter_table = ON; PRAGMA foreign_keys = OFF;'' [] tr of
        (Some err, tr') \<Rightarrow> (Failed (SqliteDisableFK err), tr')
      | (None, tr') \<Rightarrow> (Returned (), tr'))"
| "disableFKs MysqlSupp drv q tr = (Returned (), tr)"

fun saveMigrationToLog ::
  "dialectSupp \<Rightarrow> driver \<Rightarrow> handle \<Rightarrow> string \<Rightarrow> string \<Rightarrow> trace \<Rightarrow> unit outcome \<times> trace" where
  "saveMigrationToLog SqliteSupp drv q migrationID desc tr =
     (case Exec drv q
             (''INSERT INTO migrations (desc, id, at) VALUES (?, ?, DATE('' @ [CHR 0x27] @
              ''now'' @ [CHR 0x27] @ ''));'')
             [desc, migrationID] tr of
        (Some err, tr') \<Rightarrow> (Failed (SqliteSaveLog err), tr')
      | (None, tr') \<Rightarrow> (Returned (), tr'))"
| "saveMigrationToLog MysqlSupp drv q migrationID desc tr =
     (case Exec drv q ''INSERT INTO migrations (desc, id, at) VALUES (?, ?, NOW());''
             [desc, migrationID] tr of
        (Some err, tr') \<Rightarrow> (Failed (MysqlSaveLog err), tr')
      | (None, tr') \<Rightarrow> (Returned (), tr'))"

subsection \<open>applyMigration (part 000)\<close>

text \<open>\<^verbatim>\<open>strings.Split(s, ";")\<close>: the pieces between the separators, empty ones kept;
  \<open>cur\<close> is the piece being read.\<close>

fun splitFrom :: "char \<Rightarrow> string \<Rightarrow> string \<Rightarrow> string list" where
  "splitFrom sep cur [] = [cur]"
| "splitFrom sep cur (c # cs) =
     (if c = sep then cur # splitFrom sep [] cs else splitFrom sep (cur @ [c]) cs)"

definition Split :: "string \<Rightarrow> char \<Rightarrow> string list" where
  "Split s sep = splitFrom sep [] s"

text \<open>
  \<^verbatim>\<open>strings.TrimSpace(stmt) == ""\<close>: every rune of the UTF-8 string is white space in the
  sense of \<^verbatim>\<open>unicode.IsSpace\<close>. \<open>isSpace1\<close>, \<open>isSpace2\<close> and \<open>isSpace3\<close> are the
  white-space runes encoded in one, two and three bytes: U+0009 to U+000D and U+0020;
  U+0085 and U+00A0; U+1680, U+2000 to U+200A, U+2028, U+2029, U+202F, U+205F and U+3000.
\<close>

definition isSpace1 :: "char \<Rightarrow> bool" where
  "isSpace1 a \<longleftrightarrow> a \<in> {CHR 0x09, CHR 0x0A, CHR 0x0B, CHR 0x0C, CHR 0x0D, CHR 0x20}"

definition isSpace2 :: "char \<Rightarrow> char \<Rightarrow> bool" where
  "isSpace2 a b \<longleftrightarrow> a = CHR 0xC2 \<and> (b = CHR 0x85 \<or> b = CHR 0xA0)"

definition isSpace3 :: "char \<Rightarrow> char \<Rightarrow> char \<Rightarrow> bool" where
  "isSpace3 a b c \<longleftrightarrow>
     a = CHR 0xE1 \<and> b = CHR 0x9A \<and> c = CHR 0x80 \<or>
     a = CHR 0xE2 \<and> b = CHR 0x80 \<and>
       (c \<in> {CHR 0x80, CHR 0x81, CHR 0x82, CHR 0x83, CHR 0x84, CHR 0x85, CHR 0x86, CHR 0x87,
              CHR 0x88, CHR 0x89, CHR 0x8A, CHR 0xA8, CHR 0xA9, CHR 0xAF}) \<or>
     a = CHR 0xE2 \<and> b = CHR 0x81 \<and> c = CHR 0x9F \<or>
     a = CHR 0xE3 \<and> b = CHR 0x80 \<and> c = CHR 0x80"

fun isBlank :: "string \<Rightarrow> bool" where
  "isBlank [] = True"
| "isBlank [a] = isSpace1 a"
| "isBlank [a, b] = (if isSpace1 a then isBlank [b] else isSpace2 a b)"
| "isBlank (a # b # c # cs) =
     (if isSpace1 a then isBlank (b # c # cs)
      else if isSpace2 a b then isBlank (c # cs)
      else isSpace3 a b c \<and> isBlank cs)"

text \<open>Lines 209-216: the loop over the statements; \<open>mID\<close> is \<^verbatim>\<open>m.ID\<close>.\<close>

fun execStatements ::
  "driver \<Rightarrow> handle \<Rightarrow> string \<Rightarrow> string list \<Rightarrow> trace \<Rightarrow> unit outcome \<times> trace" where
  "execStatements drv q mID [] tr = (Returned (), tr)"
| "execStatements drv q mID (stmt # statements) tr =
     (if isBlank stmt then execStatements drv q mID statements tr
      else case Exec drv q stmt [] tr of
             (Some err, tr') \<Rightarrow> (Failed (MigrationFailed mID err), tr')
           | (None, tr') \<Rightarrow> execStatements drv q mID statements tr')"

text \<open>Lines 201-227: the function literal that applyMigration passes to withTx.\<close>

definition migrationTx ::
  "driver \<Rightarrow> dialectSupp \<Rightarrow> hook Migration \<Rightarrow> handle \<Rightarrow> trace \<Rightarrow> unit outcome \<times> trace" where
  "migrationTx drv ds m q tr =
     (case (case PreUpgrade m of
              None \<Rightarrow> (Returned (), tr)
            | Some pre \<Rightarrow>
                (case pre drv q tr of
                   (Failed err, tr') \<Rightarrow> (Failed (PreUpgradeFailed (ID m) err), tr')
                 | r \<Rightarrow> r)) of
        (Returned u, tr1) \<Rightarrow>
          (case execStatements drv q (ID m) (Split (Stmt m) (CHR '';'')) tr1 of
             (Returned u, tr2) \<Rightarrow>
               (case (case PostUpgrade m of
                        None \<Rightarrow> (Returned (), tr2)
                      | Some post \<Rightarrow>
                          (case post drv q tr2 of
                             (Failed err, tr') \<Rightarrow> (Failed (PostUpgradeFailed (ID m) err), tr')
                           | r \<Rightarrow> r)) of
                  (Returned u, tr3) \<Rightarrow> saveMigrationToLog ds drv q (ID m) (Desc m) tr3
                | r \<Rightarrow> r)
           | r \<Rightarrow> r)
      | r \<Rightarrow> r)"

text \<open>
  Lines 194-235. A panic inside withTx (raised again by wrapTx) leaves applyMigration at
  once: the function has no deferred call, so the lines after withTx do not run.
\<close>

definition applyMigration ::
  "driver \<Rightarrow> dialectSupp \<Rightarrow> hook Migration \<Rightarrow> trace \<Rightarrow> unit outcome \<times> trace" where
  "applyMigration drv ds m tr =
     (case (if DisableFK m then disableFKs ds drv OnDB tr else (Returned (), tr)) of
        (Returned u, tr1) \<Rightarrow>
          (case withTx drv (migrationTx drv ds m) tr1 of
             (Panicked p, tr2) \<Rightarrow> (Panicked p, tr2)
           | (err, tr2) \<Rightarrow>
               (case (if DisableFK m then enableFKs ds drv OnDB tr2 else (Returned (), tr2)) of
                  (Returned u, tr3) \<Rightarrow> (err, tr3)
                | (fkErr, tr3) \<Rightarrow> (fkErr, tr3)))
      | r \<Rightarrow> r)"

subsection \<open>Upgrade (migrate.go)\<close>

text \<open>Lines 67-71 of migrate.go: the loop over the resolved migrations. \<^verbatim>\<open>*m\<close> on a nil
  pointer panics.\<close>

fun applyEach ::
  "driver \<Rightarrow> dialectSupp \<Rightarrow> hook Migration option list \<Rightarrow> trace \<Rightarrow> unit outcome \<times> trace" where
  "applyEach drv ds [] tr = (Returned (), tr)"
| "applyEach drv ds (p # mm) tr =
     (case p of
        None \<Rightarrow> (Panicked NilDereference, tr)
      | Some m \<Rightarrow>
          (case applyMigration drv ds m tr of
             (Returned u, tr') \<Rightarrow> applyEach drv ds mm tr'
           | (Failed mErr, tr') \<Rightarrow> (Failed (MigrationFailed (ID m) mErr), tr')
           | (Panicked pn, tr') \<Rightarrow> (Panicked pn, tr')))"

text \<open>\<open>None\<close> is an Upgrade that never returns (the walk of findMigrationsToApply).\<close>

definition Upgrade ::
  "driver \<Rightarrow> string \<Rightarrow> string \<Rightarrow> hook Migration list \<Rightarrow> trace
     \<Rightarrow> (unit outcome \<times> trace) option" where
  "Upgrade drv dialect targetMigration migrations tr =
     (case newDialectSupp dialect of
        Panicked p \<Rightarrow> Some (Panicked p, tr)
      | Failed e \<Rightarrow> Some (Failed e, tr)
      | Returned ds \<Rightarrow>
          (case ensureMigrationLog ds drv OnDB tr of
             (Returned u, tr1) \<Rightarrow>
               (case ensureFKChecksEnabled ds drv OnDB tr1 of
                  (Returned u, tr2) \<Rightarrow>
                    (case getAppliedMigrations drv OnDB tr2 of
                       (Returned applied, tr3) \<Rightarrow>
                         (case findMigrationsToApply migrations applied targetMigration of
                            None \<Rightarrow> None
                          | Some (Returned mm) \<Rightarrow>
                              if length mm = 0 then Some (Returned (), tr3)
                              else Some (applyEach drv ds mm tr3)
                          | Some (Failed err) \<Rightarrow> Some (Failed err, tr3)
                          | Some (Panicked p) \<Rightarrow> Some (Panicked p, tr3))
                     | (Failed err, tr3) \<Rightarrow> Some (Failed err, tr3)
                     | (Panicked p, tr3) \<Rightarrow> Some (Panicked p, tr3))
                | r \<Rightarrow> Some r)
           | r \<Rightarrow> Some r))"

definition UpgradeToLatest ::
  "driver \<Rightarrow> string \<Rightarrow> hook Migration list \<Rightarrow> trace \<Rightarrow> (unit outcome \<times> trace) option" where
  "UpgradeToLatest drv dialect migrations tr = Upgrade drv dialect [] migrations tr"

subsection \<open>Notions of the specification\<close>

text \<open>
  A chain from the anchor \<open>a\<close>: the first migration follows \<open>a\<close>, every other one
  follows the one before it.
\<close>

fun isChain :: "string \<Rightarrow> 'h Migration list \<Rightarrow> bool" where
  "isChain a [] = True"
| "isChain a (m # ms) = (Previous m = a \<and> isChain (ID m) ms)"

text \<open>
  A valid migration chain in chain order: not empty, a chain from an anchor that is no id
  of the set, with ids that are distinct and not empty. A valid migration set is a list
  \<open>ms\<close> with \<open>mset ms = mset c\<close> for a valid chain \<open>c\<close>: the same migrations in any
  declaration order.
\<close>

definition validChain :: "string \<Rightarrow> 'h Migration list \<Rightarrow> bool" where
  "validChain a c \<longleftrightarrow>
     c \<noteq> [] \<and> isChain a c \<and> distinct (map ID c) \<and> a \<notin> ID ` set c \<and> [] \<notin> ID ` set c"

text \<open>The migrations whose previous is the id of no supplied migration.\<close>

definition dangling :: "'h Migration list \<Rightarrow> 'h Migration list" where
  "dangling ms = filter (\<lambda>m. Previous m \<notin> ID ` set ms) ms"

text \<open>
  What the first two loops of findMigrationsToApply accept: no empty id, no id twice, no
  previous twice, at most one dangling previous.
\<close>

definition wellFormed :: "'h Migration list \<Rightarrow> bool" where
  "wellFormed ms \<longleftrightarrow>
     [] \<notin> ID ` set ms \<and> distinct (map ID ms) \<and> distinct (map Previous ms) \<and>
     length (dangling ms) \<le> 1"

text \<open>The two maps that the first loop builds from a well-formed list.\<close>

definition byID :: "'h Migration list \<Rightarrow> 'h mMap" where
  "byID ms = map_of (map (\<lambda>m. (ID m, m)) ms)"

definition byPrevious :: "'h Migration list \<Rightarrow> rmMap" where
  "byPrevious ms = map_of (map (\<lambda>m. (Previous m, ID m)) ms)"

definition isPanicked :: "'a outcome \<Rightarrow> bool" where
  "isPanicked r = (case r of Panicked p \<Rightarrow> True | Returned x \<Rightarrow> False | Failed e \<Rightarrow> False)"

subsection \<open>Concrete inputs\<close>

text \<open>A migration literal that sets \<^verbatim>\<open>Previous\<close> and \<^verbatim>\<open>ID\<close> only, as the tests
  of the package write them.\<close>

definition mig :: "string \<Rightarrow> string \<Rightarrow> 'h Migration" where
  "mig p i = \<lparr>Previous = p, ID = i, Desc = [], Stmt = [], PreUpgrade = None,
              PostUpgrade = None, DisableFK = False\<rparr>"

text \<open>A database on which every call succeeds and the log table has no row.\<close>

definition okDriver :: driver where
  "okDriver = \<lparr>execReply = (\<lambda>tr q query args. None),
               queryReply = (\<lambda>tr q query. Inr \<lparr>scans = [], rowsErr = None\<rparr>),
               beginReply = (\<lambda>tr. None),
               commitReply = (\<lambda>tr. None),
               rollbackReply = (\<lambda>tr. None)\<rparr>"

text \<open>The same database, except that the statement of the SQLite enableFKs fails.\<close>

definition enableFailsDriver :: driver where
  "enableFailsDriver =
     okDriver\<lparr>execReply :=
       (\<lambda>tr q query args.
          if query = ''PRAGMA foreign_keys = ON; PRAGMA legacy_alter_table = OFF;''
          then Some (External ''database is locked'') else None)\<rparr>"

text \<open>A hook that panics at once, and a migration with that pre-upgrade hook and
  \<^verbatim>\<open>DisableFK\<close> set.\<close>

definition panicHook :: hook where
  "panicHook drv q tr = (Panicked (HookPanic ''boom''), tr)"

definition panicMigration :: "hook Migration" where
  "panicMigration = (mig [] ''1'')\<lparr>PreUpgrade := Some panicHook, DisableFK := True\<rparr>"

text \<open>A hook that returns an error, and the same migration with that hook instead.\<close>

definition failHook :: hook where
  "failHook drv q tr = (Failed (External ''hook failed''), tr)"

definition failMigration :: "hook Migration" where
  "failMigration = (mig [] ''1'')\<lparr>PreUpgrade := Some failHook, DisableFK := True\<rparr>"

text \<open>A migration with one statement, a blank trailing segment and \<^verbatim>\<open>DisableFK\<close>
  set.\<close>

definition fkMigration :: "hook Migration" where
  "fkMigration =
     (mig [] ''1'')\<lparr>Stmt := ''CREATE TABLE a (id INTEGER); '', DisableFK := True\<rparr>"

section \<open>Lemmas\<close>

subsection \<open>The first two loops on a well-formed list\<close>

lemma byID_None: "(byID ms k = None) = (k \<notin> ID ` set ms)"
  by (simp add: byID_def map_of_eq_None_iff image_image)

lemma byID_Some: "distinct (map ID ms) \<Longrightarrow> m \<in> set ms \<Longrightarrow> byID ms (ID m) = Some m"
  by (simp add: byID_def comp_def)

lemma byPrevious_None: "(byPrevious ms k = None) = (k \<notin> Previous ` set ms)"
  by (simp add: byPrevious_def map_of_eq_None_iff image_image)

lemma byPrevious_Some:
  "distinct (map Previous ms) \<Longrightarrow> m \<in> set ms \<Longrightarrow> byPrevious ms (Previous m) = Some (ID m)"
  by (simp add: byPrevious_def comp_def)

lemma indexMigrations_ok:
  "[] \<notin> ID ` set ms \<Longrightarrow> distinct (map ID ms) \<Longrightarrow> distinct (map Previous ms) \<Longrightarrow>
   dom mM \<inter> ID ` set ms = {} \<Longrightarrow> dom rM \<inter> Previous ` set ms = {} \<Longrightarrow>
   indexMigrations aMap ms (mM, rM, af) =
     Inr (mM ++ byID ms, rM ++ byPrevious ms, af \<or> (\<exists>m\<in>set ms. Previous m \<in> aMap))"
proof (induction ms arbitrary: mM rM af)
  case Nil
  then show ?case by (simp add: byID_def byPrevious_def)
next
  case (Cons m ms)
  have a: "mM (ID m) = None" "rM (Previous m) = None" "ID m \<noteq> []"
    using Cons.prems by auto
  have b: "ID m \<notin> ID ` set ms" "Previous m \<notin> Previous ` set ms"
    using Cons.prems by auto
  have c: "dom (mM(ID m \<mapsto> m)) \<inter> ID ` set ms = {}"
          "dom (rM(Previous m \<mapsto> ID m)) \<inter> Previous ` set ms = {}"
    using Cons.prems by auto
  have d: "[] \<notin> ID ` set ms" "distinct (map ID ms)" "distinct (map Previous ms)"
    using Cons.prems by auto
  have e: "mM(ID m \<mapsto> m) ++ byID ms = mM ++ byID (m # ms)"
    using b(1) by (simp add: byID_def map_add_upd_left map_of_eq_None_iff image_image dom_map_of_conv_image_fst)
  have f: "rM(Previous m \<mapsto> ID m) ++ byPrevious ms = rM ++ byPrevious (m # ms)"
    using b(2) by (simp add: byPrevious_def map_add_upd_left map_of_eq_None_iff image_image dom_map_of_conv_image_fst)
  define af' where "af' = (if \<not> af then (if Previous m \<in> aMap then True else af) else af)"
  have g: "indexMigrations aMap (m # ms) (mM, rM, af) =
           indexMigrations aMap ms (mM(ID m \<mapsto> m), rM(Previous m \<mapsto> ID m), af')"
    using a by (simp add: af'_def)
  have h: "(af' \<or> (\<exists>x\<in>set ms. Previous x \<in> aMap)) = (af \<or> (\<exists>x\<in>set (m # ms). Previous x \<in> aMap))"
    by (auto simp: af'_def)
  show ?case
    unfolding g Cons.IH [OF d c] e f h ..
qed

lemma indexMigrations_appliedFound:
  "indexMigrations aMap ms (mM, rM, af) = Inr (mM', rM', af') \<Longrightarrow>
   af' = (af \<or> (\<exists>m\<in>set ms. Previous m \<in> aMap))"
proof (induction ms arbitrary: mM rM af)
  case Nil
  then show ?case by simp
next
  case (Cons m ms)
  then show ?case
    by (auto simp: Let_def split: if_splits option.splits)
qed

lemma findInitial_none:
  "filter (\<lambda>m. mM (Previous m) = None) xs = [] \<Longrightarrow> findInitial mM xs ini = Inr ini"
  by (induction xs arbitrary: ini) (auto split: if_splits option.splits)

lemma findInitial_one:
  "filter (\<lambda>m. mM (Previous m) = None) xs = [d] \<Longrightarrow>
   findInitial mM xs None = Inr (Some (Previous d))"
proof (induction xs)
  case Nil
  then show ?case by simp
next
  case (Cons x xs)
  show ?case
  proof (cases "mM (Previous x)")
    case None
    with Cons.prems have "x = d" "filter (\<lambda>m. mM (Previous m) = None) xs = []"
      by simp_all
    then show ?thesis
      using None by (simp add: findInitial_none)
  next
    case (Some y)
    with Cons show ?thesis by simp
  qed
qed

lemma findInitial_byID:
  "length (dangling ms) \<le> 1 \<Longrightarrow>
   findInitial (byID ms) ms None = Inr (map_option Previous (case dangling ms of [] \<Rightarrow> None | d # ds \<Rightarrow> Some d))"
proof (cases "dangling ms")
  case Nil
  then show ?thesis
    using findInitial_none [of "byID ms" ms None] by (simp add: dangling_def byID_None)
next
  case (Cons d ds)
  assume "length (dangling ms) \<le> 1"
  with Cons have "dangling ms = [d]" by simp
  then show ?thesis
    using findInitial_one [of "byID ms" ms d] by (simp add: dangling_def byID_None)
qed

lemma findMigrationsToApply_unfold:
  "indexMigrations (set applied) ms (Map.empty, Map.empty, set applied = {}) = Inr (mM, rM, af) \<Longrightarrow>
   findInitial mM ms None = Inr ini \<Longrightarrow>
   findMigrationsToApply ms applied targetID =
     (if \<not> af then Some (Failed NotCorrelated)
      else if targetID \<noteq> [] \<and> mM targetID = None then Some (Failed (TargetNotFound targetID))
      else case ini of
             None \<Rightarrow> Some (Panicked NilDereference)
           | Some a \<Rightarrow>
               (case walkChain rM mM a [] of
                  None \<Rightarrow> None
                | Some ordered \<Rightarrow> Some (selectRange (set applied) targetID ordered)))"
  by (simp add: findMigrationsToApply_def)

lemma findMigrationsToApply_wellFormed:
  assumes "wellFormed ms"
  shows "findMigrationsToApply ms applied targetID =
     (if applied \<noteq> [] \<and> (\<forall>m\<in>set ms. Previous m \<notin> set applied) then Some (Failed NotCorrelated)
      else if targetID \<noteq> [] \<and> targetID \<notin> ID ` set ms then Some (Failed (TargetNotFound targetID))
      else case dangling ms of
             [] \<Rightarrow> Some (Panicked NilDereference)
           | d # ds \<Rightarrow>
               (case walkChain (byPrevious ms) (byID ms) (Previous d) [] of
                  None \<Rightarrow> None
                | Some ordered \<Rightarrow> Some (selectRange (set applied) targetID ordered)))"
proof -
  have a: "indexMigrations (set applied) ms (Map.empty, Map.empty, set applied = {}) =
        Inr (byID ms, byPrevious ms, set applied = {} \<or> (\<exists>m\<in>set ms. Previous m \<in> set applied))"
    using assms indexMigrations_ok [of ms Map.empty Map.empty "set applied" "set applied = {}"]
    by (simp add: wellFormed_def)
  have b: "findInitial (byID ms) ms None =
        Inr (map_option Previous (case dangling ms of [] \<Rightarrow> None | d # ds \<Rightarrow> Some d))"
    using assms by (simp add: wellFormed_def findInitial_byID)
  show ?thesis
    unfolding findMigrationsToApply_unfold [OF a b]
    by (auto simp: byID_None split: list.splits)
qed

subsection \<open>Permutations of the input\<close>

lemma perm_distinct_map: "mset ms' = mset ms \<Longrightarrow> distinct (map f ms') = distinct (map f ms)"
proof -
  assume "mset ms' = mset ms"
  then have "mset (map f ms') = mset (map f ms)" by (simp only: mset_map)
  then show ?thesis by (rule mset_eq_imp_distinct_iff)
qed

lemma perm_dangling: 
  assumes "mset ms' = mset ms"
  shows "mset (dangling ms') = mset (dangling ms)"
proof -
  have "set ms' = set ms" using assms by (rule mset_eq_setD)
  then show ?thesis unfolding dangling_def mset_filter by (simp only: assms)
qed

lemma perm_dangling_eq:
  assumes "mset ms' = mset ms" "length (dangling ms) \<le> 1"
  shows "dangling ms' = dangling ms"
proof (cases "dangling ms")
  case Nil
  then show ?thesis using perm_dangling [OF assms(1)] by simp
next
  case (Cons d ds)
  with assms(2) have "dangling ms = [d]" by simp
  then show ?thesis using perm_dangling [OF assms(1)] by simp
qed

lemma perm_wellFormed:
  assumes "mset ms' = mset ms" "wellFormed ms"
  shows "wellFormed ms'"
proof -
  have s: "set ms' = set ms" using assms(1) by (rule mset_eq_setD)
  have d: "dangling ms' = dangling ms"
    using assms by (intro perm_dangling_eq) (simp_all only: wellFormed_def)
  show ?thesis
    using assms(2) unfolding wellFormed_def d s perm_distinct_map [OF assms(1)] .
qed

lemma perm_byID:
  assumes "mset ms' = mset ms" "distinct (map ID ms)"
  shows "byID ms' = byID ms"
proof -
  have s: "set ms' = set ms" using assms(1) by (rule mset_eq_setD)
  have d: "distinct (map ID ms')" using assms(2) by (simp only: perm_distinct_map [OF assms(1)])
  have "distinct (map fst (map (\<lambda>m. (ID m, m)) ms'))" "distinct (map fst (map (\<lambda>m. (ID m, m)) ms))"
    using d assms(2) by (simp_all add: comp_def)
  then have "map_of (map (\<lambda>m. (ID m, m)) ms') = map_of (map (\<lambda>m. (ID m, m)) ms)"
    by (subst map_of_inject_set) (simp_all only: set_map s)
  then show ?thesis by (simp only: byID_def)
qed

lemma perm_byPrevious:
  assumes "mset ms' = mset ms" "distinct (map Previous ms)"
  shows "byPrevious ms' = byPrevious ms"
proof -
  have s: "set ms' = set ms" using assms(1) by (rule mset_eq_setD)
  have d: "distinct (map Previous ms')" using assms(2) by (simp only: perm_distinct_map [OF assms(1)])
  have "distinct (map fst (map (\<lambda>m. (Previous m, ID m)) ms'))"
       "distinct (map fst (map (\<lambda>m. (Previous m, ID m)) ms))"
    using d assms(2) by (simp_all add: comp_def)
  then have "map_of (map (\<lambda>m. (Previous m, ID m)) ms') = map_of (map (\<lambda>m. (Previous m, ID m)) ms)"
    by (subst map_of_inject_set) (simp_all only: set_map s)
  then show ?thesis by (simp only: byPrevious_def)
qed

lemma findMigrationsToApply_perm:
  assumes "wellFormed ms" "mset ms' = mset ms"
  shows "findMigrationsToApply ms' applied targetID = findMigrationsToApply ms applied targetID"
proof -
  have s: "set ms' = set ms" using assms(2) by (rule mset_eq_setD)
  have w: "wellFormed ms'" using assms(2,1) by (rule perm_wellFormed)
  have d: "dangling ms' = dangling ms"
    using assms by (intro perm_dangling_eq) (simp_all only: wellFormed_def)
  have di: "distinct (map ID ms)" "distinct (map Previous ms)"
    using assms(1) by (simp_all only: wellFormed_def)
  have m: "byID ms' = byID ms" "byPrevious ms' = byPrevious ms"
    using assms(2) di(1) apply (rule perm_byID)
    using assms(2) di(2) by (rule perm_byPrevious)
  show ?thesis
    by (simp only: findMigrationsToApply_wellFormed [OF w]
          findMigrationsToApply_wellFormed [OF assms(1)] d m s)
qed

subsection \<open>The walk on a valid chain\<close>

lemma isChain_Previous: "isChain a c \<Longrightarrow> map Previous c = butlast (a # map ID c)"
  by (induction c arbitrary: a) auto

lemma isChain_Previous_set: "isChain a c \<Longrightarrow> Previous ` set c \<subseteq> insert a (ID ` set c)"
proof -
  assume "isChain a c"
  then have "set (map Previous c) = set (butlast (a # map ID c))"
    by (simp only: isChain_Previous)
  also have "\<dots> \<subseteq> set (a # map ID c)"
    by (meson in_set_butlastD subsetI)
  finally show ?thesis by simp
qed

lemma walkChain_isChain:
  "isChain cur c \<Longrightarrow>
   (\<forall>m\<in>set c. rM (Previous m) = Some (ID m) \<and> mM (ID m) = Some m) \<Longrightarrow>
   rM (last (cur # map ID c)) = None \<Longrightarrow>
   walkChain rM mM cur acc = Some (acc @ map Some c)"
proof (induction c arbitrary: cur acc)
  case Nil
  then show ?case by (subst walkChain.simps) simp
next
  case (Cons m c)
  have a: "rM cur = Some (ID m)" "mM (ID m) = Some m"
    using Cons.prems by auto
  have b: "walkChain rM mM (ID m) (acc @ [Some m]) = Some ((acc @ [Some m]) @ map Some c)"
    using Cons.prems by (intro Cons.IH) auto
  show ?case
    by (subst walkChain.simps) (simp add: a b)
qed

lemma validChain_distinct_Previous: "validChain a c \<Longrightarrow> distinct (map Previous c)"
proof -
  assume v: "validChain a c"
  then have "distinct (a # map ID c)" by (simp add: validChain_def)
  then have "distinct (butlast (a # map ID c))" by (rule distinct_butlast)
  moreover have "map Previous c = butlast (a # map ID c)"
    using v by (simp only: validChain_def isChain_Previous)
  ultimately show ?thesis by (simp only:)
qed

lemma validChain_last: "validChain a c \<Longrightarrow> last (a # map ID c) \<notin> Previous ` set c"
proof -
  assume v: "validChain a c"
  then have d: "distinct (a # map ID c)" by (simp add: validChain_def)
  have "last (a # map ID c) \<notin> set (butlast (a # map ID c))"
    using d by (metis append_butlast_last_id disjoint_iff distinct_append list.discI list.set_intros(1))
  then show ?thesis using v by (metis isChain_Previous list.set_map validChain_def)
qed

lemma validChain_dangling: "validChain a c \<Longrightarrow> dangling c = [hd c]"
proof -
  assume v: "validChain a c"
  then obtain m c' where c: "c = m # c'" by (cases c) (auto simp: validChain_def)
  have p: "Previous m = a" "isChain (ID m) c'" using v c by (simp_all add: validChain_def)
  have "Previous ` set c' \<subseteq> ID ` set c" using isChain_Previous_set [OF p(2)] c by auto
  then have "filter (\<lambda>x. Previous x \<notin> ID ` set c) c' = []"
    by (auto simp: filter_empty_conv)
  then show ?thesis using v c p by (simp add: dangling_def validChain_def)
qed

lemma validChain_hd: "validChain a c \<Longrightarrow> Previous (hd c) = a"
  by (cases c) (simp_all add: validChain_def)

lemma validChain_wellFormed: "validChain a c \<Longrightarrow> wellFormed c"
  by (simp add: wellFormed_def validChain_dangling validChain_distinct_Previous)
     (simp add: validChain_def)

lemma validChain_walk:
  assumes "validChain a c"
  shows "walkChain (byPrevious c) (byID c) a [] = Some (map Some c)"
proof -
  have d: "distinct (map ID c)" "distinct (map Previous c)"
    using assms validChain_distinct_Previous by (auto simp: validChain_def)
  have "walkChain (byPrevious c) (byID c) a [] = Some ([] @ map Some c)"
  proof (rule walkChain_isChain)
    show "isChain a c" using assms by (simp add: validChain_def)
    show "\<forall>m\<in>set c. byPrevious c (Previous m) = Some (ID m) \<and> byID c (ID m) = Some m"
      using d by (simp add: byID_Some byPrevious_Some)
    show "byPrevious c (last (a # map ID c)) = None"
      using validChain_last [OF assms] by (simp add: byPrevious_None)
  qed
  then show ?thesis by simp
qed

lemma findMigrationsToApply_validChain:
  assumes "validChain a c" "mset ms = mset c"
  shows "findMigrationsToApply ms applied targetID =
     (if applied \<noteq> [] \<and> (\<forall>m\<in>set c. Previous m \<notin> set applied) then Some (Failed NotCorrelated)
      else if targetID \<noteq> [] \<and> targetID \<notin> ID ` set c then Some (Failed (TargetNotFound targetID))
      else Some (selectRange (set applied) targetID (map Some c)))"
proof -
  have w: "wellFormed c" using assms(1) by (rule validChain_wellFormed)
  have "findMigrationsToApply ms applied targetID = findMigrationsToApply c applied targetID"
    using w assms(2) by (rule findMigrationsToApply_perm)
  also have "\<dots> = (if applied \<noteq> [] \<and> (\<forall>m\<in>set c. Previous m \<notin> set applied) then Some (Failed NotCorrelated)
      else if targetID \<noteq> [] \<and> targetID \<notin> ID ` set c then Some (Failed (TargetNotFound targetID))
      else Some (selectRange (set applied) targetID (map Some c)))"
    using validChain_hd [OF assms(1)]
    by (simp add: findMigrationsToApply_wellFormed [OF w] validChain_dangling [OF assms(1)]
          validChain_walk [OF assms(1)])
  finally show ?thesis .
qed

subsection \<open>The scan and the slice\<close>

lemma scanOrdered_map_Some:
  "\<exists>la' t'. scanOrdered aMap tg (map Some xs) i (la, t) = Returned (la', t') \<and>
     (\<forall>j<length xs. ID (xs ! j) \<in> aMap \<longrightarrow> i + int j \<le> la') \<and>
     (la' = la \<or> (\<exists>j<length xs. la' = i + int j \<and> ID (xs ! j) \<in> aMap)) \<and>
     (t' = t \<or> (\<exists>j<length xs. t' = i + int j + 1 \<and> ID (xs ! j) = tg))"
proof (induction xs arbitrary: i la t)
  case Nil
  then show ?case by simp
next
  case (Cons x xs)
  define la1 where "la1 = (if ID x \<in> aMap then i else la)"
  define t1 where "t1 = (if ID x = tg then i + 1 else t)"
  obtain la' t' where r: "scanOrdered aMap tg (map Some xs) (i + 1) (la1, t1) = Returned (la', t')"
    and p1: "\<forall>j<length xs. ID (xs ! j) \<in> aMap \<longrightarrow> i + 1 + int j \<le> la'"
    and p2: "la' = la1 \<or> (\<exists>j<length xs. la' = i + 1 + int j \<and> ID (xs ! j) \<in> aMap)"
    and p3: "t' = t1 \<or> (\<exists>j<length xs. t' = i + 1 + int j + 1 \<and> ID (xs ! j) = tg)"
    using Cons.IH [of "i + 1" la1 t1] by blast
  have s: "scanOrdered aMap tg (map Some (x # xs)) i (la, t) = Returned (la', t')"
    using r by (simp add: la1_def t1_def)
  have q1: "\<forall>j<length (x # xs). ID ((x # xs) ! j) \<in> aMap \<longrightarrow> i + int j \<le> la'"
  proof (intro allI impI)
    fix j assume j: "j < length (x # xs)" "ID ((x # xs) ! j) \<in> aMap"
    show "i + int j \<le> la'"
    proof (cases j)
      case 0
      then have "la1 = i" using j by (simp add: la1_def)
      then show ?thesis using p2 0 by auto
    next
      case (Suc j')
      then show ?thesis using p1 j by auto
    qed
  qed
  have q2: "la' = la \<or> (\<exists>j<length (x # xs). la' = i + int j \<and> ID ((x # xs) ! j) \<in> aMap)"
  proof (cases "la' = la1")
    case True
    then show ?thesis by (cases "ID x \<in> aMap") (auto simp: la1_def)
  next
    case False
    then obtain j where "j < length xs" "la' = i + 1 + int j" "ID (xs ! j) \<in> aMap"
      using p2 by blast
    then have "Suc j < length (x # xs) \<and> la' = i + int (Suc j) \<and> ID ((x # xs) ! Suc j) \<in> aMap"
      by simp
    then show ?thesis by blast
  qed
  have q3: "t' = t \<or> (\<exists>j<length (x # xs). t' = i + int j + 1 \<and> ID ((x # xs) ! j) = tg)"
  proof (cases "t' = t1")
    case True
    then show ?thesis by (cases "ID x = tg") (auto simp: t1_def)
  next
    case False
    then obtain j where "j < length xs" "t' = i + 1 + int j + 1" "ID (xs ! j) = tg"
      using p3 by blast
    then have "Suc j < length (x # xs) \<and> t' = i + int (Suc j) + 1 \<and> ID ((x # xs) ! Suc j) = tg"
      by simp
    then show ?thesis by blast
  qed
  show ?case using s q1 q2 q3 by blast
qed

lemma selectRange_map_Some:
  assumes "selectRange aMap tg (map Some xs) = Returned res"
  shows "\<exists>lo n. res = take n (drop lo (map Some xs)) \<and>
            (\<forall>j<length xs. ID (xs ! j) \<in> aMap \<longrightarrow> j < lo) \<and>
            (lo = 0 \<or> (lo \<le> length xs \<and> ID (xs ! (lo - 1)) \<in> aMap))"
proof -
  obtain la' t' where r: "scanOrdered aMap tg (map Some xs) 0 (- 1, int (length xs)) = Returned (la', t')"
    and p1: "\<forall>j<length xs. ID (xs ! j) \<in> aMap \<longrightarrow> 0 + int j \<le> la'"
    and p2: "la' = - 1 \<or> (\<exists>j<length xs. la' = 0 + int j \<and> ID (xs ! j) \<in> aMap)"
    and p3: "t' = int (length xs) \<or> (\<exists>j<length xs. t' = 0 + int j + 1 \<and> ID (xs ! j) = tg)"
    using scanOrdered_map_Some [of aMap tg xs 0 "- 1" "int (length xs)"] by blast
  define lo where "lo = nat (la' + 1)"
  have b: "- 1 \<le> la'" "la' < int (length xs)" "t' \<le> int (length xs)"
    using p2 p3 by auto
  have c1: "\<forall>j<length xs. ID (xs ! j) \<in> aMap \<longrightarrow> j < lo"
    using p1 by (auto simp: lo_def)
  have c2: "lo = 0 \<or> (lo \<le> length xs \<and> ID (xs ! (lo - 1)) \<in> aMap)"
  proof (cases "la' = - 1")
    case True
    then show ?thesis by (simp add: lo_def)
  next
    case False
    then obtain j where j: "j < length xs" "la' = int j" "ID (xs ! j) \<in> aMap"
      using p2 by auto
    then have "lo = Suc j" by (simp add: lo_def)
    then show ?thesis using j by simp
  qed
  have "res = (if t' - 1 \<le> la' then [] else take (nat t' - lo) (drop lo (map Some xs)))"
    using assms b by (auto simp: selectRange_def r slice_def lo_def split: if_splits)
  then have "res = take (if t' - 1 \<le> la' then 0 else nat t' - lo) (drop lo (map Some xs))"
    by simp
  then show ?thesis using c1 c2 by blast
qed

subsection \<open>Every call returns: the walk ends\<close>

lemma scanOrdered_Returned_no_nil:
  "scanOrdered aMap tg ps i st = Returned r \<Longrightarrow> None \<notin> set ps"
proof (induction ps arbitrary: i st)
  case Nil
  then show ?case by simp
next
  case (Cons p ps)
  obtain la t where st: "st = (la, t)" by (cases st) auto
  show ?case
    using Cons.prems Cons.IH unfolding st
    by (cases p) auto
qed

lemma selectRange_Returned_no_nil:
  "selectRange aMap tg ps = Returned res \<Longrightarrow> \<exists>xs. ps = map Some xs"
proof -
  assume "selectRange aMap tg ps = Returned res"
  then obtain r where "scanOrdered aMap tg ps 0 (- 1, int (length ps)) = Returned r"
    by (auto simp: selectRange_def split: outcome.splits)
  then have "None \<notin> set ps" by (rule scanOrdered_Returned_no_nil)
  then have "ps = map Some (map the ps)"
    by (induction ps) auto
  then show ?thesis by blast
qed

lemma findMigrationsToApply_Returned:
  assumes "findMigrationsToApply ms applied targetID = Some (Returned res)"
  shows "\<exists>mM rM a ordered.
           indexMigrations (set applied) ms (Map.empty, Map.empty, set applied = {}) = Inr (mM, rM, True) \<and>
           findInitial mM ms None = Inr (Some a) \<and>
           walkChain rM mM a [] = Some (map Some ordered) \<and>
           selectRange (set applied) targetID (map Some ordered) = Returned res"
proof (cases "indexMigrations (set applied) ms (Map.empty, Map.empty, set applied = {})")
  case (Inl e)
  then show ?thesis using assms by (simp add: findMigrationsToApply_def)
next
  case (Inr st)
  obtain mM rM af where st: "st = (mM, rM, af)" by (cases st) auto
  note i = Inr [unfolded st]
  show ?thesis
  proof (cases "findInitial mM ms None")
    case (Inl e)
    then show ?thesis using assms i by (simp add: findMigrationsToApply_def)
  next
    case (Inr ini)
    note u = assms [unfolded findMigrationsToApply_unfold [OF i Inr]]
    have af: "af" using u by (auto split: if_splits)
    obtain a where a: "ini = Some a" using u by (cases ini) (auto split: if_splits)
    obtain ps where w: "walkChain rM mM a [] = Some ps"
      and s: "selectRange (set applied) targetID ps = Returned res"
      using u a by (auto split: if_splits option.splits)
    obtain ordered where o: "ps = map Some ordered"
      using selectRange_Returned_no_nil [OF s] by blast
    show ?thesis using i Inr af a w s o by auto
  qed
qed

lemma indexMigrations_Inr:
  "indexMigrations aMap ms (mM0, rM0, af0) = Inr st \<Longrightarrow>
   [] \<notin> ID ` set ms \<and> distinct (map ID ms) \<and> distinct (map Previous ms) \<and>
   dom mM0 \<inter> ID ` set ms = {} \<and> dom rM0 \<inter> Previous ` set ms = {}"
proof (induction ms arbitrary: mM0 rM0 af0)
  case Nil
  then show ?case by simp
next
  case (Cons m ms)
  have a: "ID m \<noteq> []" "mM0 (ID m) = None" "rM0 (Previous m) = None"
    using Cons.prems by (auto simp: Let_def split: if_splits option.splits)
  then obtain af1 where
    r: "indexMigrations aMap ms (mM0(ID m \<mapsto> m), rM0(Previous m \<mapsto> ID m), af1) = Inr st"
    using Cons.prems by (auto simp: Let_def split: if_splits)
  have ih: "[] \<notin> ID ` set ms \<and> distinct (map ID ms) \<and> distinct (map Previous ms) \<and>
     dom (mM0(ID m \<mapsto> m)) \<inter> ID ` set ms = {} \<and>
     dom (rM0(Previous m \<mapsto> ID m)) \<inter> Previous ` set ms = {}"
    using r by (rule Cons.IH)
  have b: "ID m \<notin> ID ` set ms" "Previous m \<notin> Previous ` set ms"
    using ih by auto
  have c: "dom mM0 \<inter> ID ` set ms = {}" "dom rM0 \<inter> Previous ` set ms = {}"
    using ih by auto
  have d: "ID m \<notin> dom mM0" "Previous m \<notin> dom rM0"
    using a by auto
  show ?case
    using a(1) ih b c d by auto
qed

lemma indexMigrations_maps:
  assumes "indexMigrations aMap ms (Map.empty, Map.empty, af0) = Inr (mM, rM, af)"
  shows "mM = byID ms" "rM = byPrevious ms"
    and "[] \<notin> ID ` set ms" "distinct (map ID ms)" "distinct (map Previous ms)"
proof -
  have w: "[] \<notin> ID ` set ms \<and> distinct (map ID ms) \<and> distinct (map Previous ms)"
    using indexMigrations_Inr [OF assms] by simp
  then show "[] \<notin> ID ` set ms" "distinct (map ID ms)" "distinct (map Previous ms)"
    by simp_all
  have "indexMigrations aMap ms (Map.empty, Map.empty, af0) =
          Inr (Map.empty ++ byID ms, Map.empty ++ byPrevious ms,
               af0 \<or> (\<exists>m\<in>set ms. Previous m \<in> aMap))"
    using w by (intro indexMigrations_ok) simp_all
  then show "mM = byID ms" "rM = byPrevious ms"
    using assms by simp_all
qed

lemma findInitial_Some:
  "findInitial mM xs ini = Inr (Some a) \<Longrightarrow> ini = None \<Longrightarrow>
   \<exists>d. filter (\<lambda>m. mM (Previous m) = None) xs = [d] \<and> Previous d = a"
proof (induction xs)
  case Nil
  then show ?case by simp
next
  case (Cons x xs)
  show ?case
  proof (cases "mM (Previous x)")
    case None
    then have r: "findInitial mM xs (Some (Previous x)) = Inr (Some a)"
      using Cons.prems by simp
    have "filter (\<lambda>m. mM (Previous m) = None) xs = [] \<and> Previous x = a"
      using r
    proof (induction xs)
      case Nil
      then show ?case by simp
    next
      case (Cons y ys)
      then show ?case by (cases "mM (Previous y)") auto
    qed
    then show ?thesis using None by simp
  next
    case (Some y)
    then show ?thesis using Cons by simp
  qed
qed

lemma isChain_snoc:
  "isChain a (xs @ [m]) = (isChain a xs \<and> Previous m = last (a # map ID xs))"
  by (induction xs arbitrary: a) auto

lemma isChain_nth_Previous:
  "isChain a xs \<Longrightarrow> j < length xs \<Longrightarrow> Previous (xs ! j) = (a # map ID xs) ! j"
proof (induction xs arbitrary: a j)
  case Nil
  then show ?case by simp
next
  case (Cons x xs)
  then show ?case by (cases j) auto
qed

lemma byPrevious_SomeD:
  "byPrevious ms k = Some i \<Longrightarrow> \<exists>m\<in>set ms. Previous m = k \<and> ID m = i"
  by (auto simp: byPrevious_def dest!: map_of_SomeD)

lemma walkChain_total:
  assumes "distinct (map ID ms)" "a \<notin> ID ` set ms"
  shows "isChain a xs \<Longrightarrow> set xs \<subseteq> set ms \<Longrightarrow> distinct (map ID xs) \<Longrightarrow>
         \<exists>ys. walkChain (byPrevious ms) (byID ms) (last (a # map ID xs)) (map Some xs) =
                 Some (map Some (xs @ ys)) \<and>
               isChain a (xs @ ys) \<and> set (xs @ ys) \<subseteq> set ms \<and> distinct (map ID (xs @ ys))"
proof (induction "length ms - length xs" arbitrary: xs rule: less_induct)
  case less
  define cur where "cur = last (a # map ID xs)"
  show ?case
  proof (cases "byPrevious ms cur")
    case None
    have "walkChain (byPrevious ms) (byID ms) cur (map Some xs) = Some (map Some xs)"
      by (subst walkChain.simps) (simp add: None)
    then show ?thesis
      using less.prems unfolding cur_def by (intro exI [of _ "[]"]) simp
  next
    case (Some mID)
    then obtain m where m: "m \<in> set ms" "Previous m = cur" "ID m = mID"
      using byPrevious_SomeD by blast
    have mm: "byID ms mID = Some m"
      using assms(1) m by (auto simp: byID_Some)
    have da: "distinct (a # map ID xs)"
      using less.prems assms(2) by auto
    have fresh: "ID m \<notin> ID ` set xs"
    proof
      assume "ID m \<in> ID ` set xs"
      then obtain x where x: "x \<in> set xs" "ID x = ID m" by auto
      then have "x \<in> set ms" using less.prems by auto
      moreover have "inj_on ID (set ms)" using assms(1) by (simp add: distinct_map)
      ultimately have "x = m" using m(1) x(2) by (auto dest: inj_onD)
      then obtain j where j: "j < length xs" "xs ! j = m"
        using x(1) by (auto simp: in_set_conv_nth)
      have "(a # map ID xs) ! j = Previous m"
        using isChain_nth_Previous [OF less.prems(1) j(1)] j(2) by simp
      also have "\<dots> = (a # map ID xs) ! length xs"
        using m(2) unfolding cur_def by (simp add: last_conv_nth)
      finally have "j = length xs"
        using da j(1) by (simp add: nth_eq_iff_index_eq del: distinct.simps)
      then show False using j(1) by simp
    qed
    define xs' where "xs' = xs @ [m]"
    have c': "last (a # map ID xs') = mID" using m(3) by (simp add: xs'_def)
    have i1: "isChain a xs'" using less.prems m unfolding xs'_def cur_def by (simp add: isChain_snoc)
    have i2: "set xs' \<subseteq> set ms" using less.prems m by (simp add: xs'_def)
    have i3: "distinct (map ID xs')" using less.prems fresh by (simp add: xs'_def)
    have "distinct xs'" using i3 by (simp only: distinct_map)
    then have "card (set xs') = length xs'" by (rule distinct_card)
    moreover have "card (set xs') \<le> card (set ms)" using i2 by (simp add: card_mono)
    moreover have "card (set ms) \<le> length ms" by (rule card_length)
    ultimately have "length xs' \<le> length ms" by simp
    then have "length ms - length xs' < length ms - length xs" by (simp add: xs'_def)
    then obtain ys where
      w: "walkChain (byPrevious ms) (byID ms) (last (a # map ID xs')) (map Some xs') =
            Some (map Some (xs' @ ys))"
      and r: "isChain a (xs' @ ys)" "set (xs' @ ys) \<subseteq> set ms" "distinct (map ID (xs' @ ys))"
      using less.hyps [OF _ i1 i2 i3] by blast
    have "walkChain (byPrevious ms) (byID ms) cur (map Some xs) = Some (map Some (xs @ m # ys))"
      using w unfolding c' by (subst walkChain.simps) (simp add: Some mm xs'_def)
    then show ?thesis using r unfolding cur_def xs'_def by (intro exI [of _ "m # ys"]) simp
  qed
qed

lemma walkChain_from_anchor:
  assumes "distinct (map ID ms)" "a \<notin> ID ` set ms"
  shows "\<exists>c. walkChain (byPrevious ms) (byID ms) a [] = Some (map Some c) \<and>
             isChain a c \<and> set c \<subseteq> set ms \<and> distinct (map ID c)"
  using walkChain_total [OF assms, of "[]"] by simp

lemma findInitial_anchor:
  assumes "findInitial (byID ms) ms None = Inr (Some a)"
  shows "a \<notin> ID ` set ms"
proof -
  obtain d where d: "filter (\<lambda>m. byID ms (Previous m) = None) ms = [d]" "Previous d = a"
    using findInitial_Some [OF assms] by blast
  have "d \<in> set (filter (\<lambda>m. byID ms (Previous m) = None) ms)"
    unfolding d(1) by simp
  then have "byID ms (Previous d) = None" by simp
  then show ?thesis using d(2) by (simp add: byID_None)
qed

lemma findMigrationsToApply_total: "findMigrationsToApply ms applied targetID \<noteq> None"
proof (cases "indexMigrations (set applied) ms (Map.empty, Map.empty, set applied = {})")
  case (Inl e)
  then show ?thesis by (simp add: findMigrationsToApply_def)
next
  case (Inr st)
  obtain mM rM af where st: "st = (mM, rM, af)" by (cases st) auto
  note i = Inr [unfolded st]
  note m = indexMigrations_maps [OF i]
  show ?thesis
  proof (cases "findInitial mM ms None")
    case (Inl e)
    then show ?thesis using i by (simp add: findMigrationsToApply_def)
  next
    case (Inr ini)
    show ?thesis
    proof (cases ini)
      case None
      then show ?thesis
        unfolding findMigrationsToApply_unfold [OF i Inr] by simp
    next
      case (Some a)
      have "a \<notin> ID ` set ms"
        using Inr unfolding Some m(1) by (rule findInitial_anchor)
      then obtain c where "walkChain rM mM a [] = Some (map Some c)"
        using walkChain_from_anchor [OF m(4), of a] unfolding m(1,2) by blast
      then show ?thesis
        unfolding findMigrationsToApply_unfold [OF i Inr] by (simp add: Some)
    qed
  qed
qed

subsection \<open>The result on a valid chain\<close>

lemma scanOrdered_target:
  "scanOrdered aMap tg (map Some xs) i (la, t) = Returned (la', t') \<Longrightarrow>
   j < length xs \<Longrightarrow> ID (xs ! j) = tg \<Longrightarrow>
   \<exists>j'<length xs. t' = i + int j' + 1 \<and> ID (xs ! j') = tg"
proof (induction xs arbitrary: i la t j)
  case Nil
  then show ?case by simp
next
  case (Cons x xs)
  define la1 where "la1 = (if ID x \<in> aMap then i else la)"
  define t1 where "t1 = (if ID x = tg then i + 1 else t)"
  have r: "scanOrdered aMap tg (map Some xs) (i + 1) (la1, t1) = Returned (la', t')"
    using Cons.prems(1) by (simp add: la1_def t1_def)
  have "(\<exists>j'<length xs. t' = i + 1 + int j' + 1 \<and> ID (xs ! j') = tg) \<or> (t' = i + 1 \<and> ID x = tg)"
  proof (cases j)
    case 0
    then have e: "t1 = i + 1" "ID x = tg" using Cons.prems by (simp_all add: t1_def)
    obtain la2 t2 where "scanOrdered aMap tg (map Some xs) (i + 1) (la1, t1) = Returned (la2, t2)"
      and "t2 = t1 \<or> (\<exists>j<length xs. t2 = i + 1 + int j + 1 \<and> ID (xs ! j) = tg)"
      using scanOrdered_map_Some [of aMap tg xs "i + 1" la1 t1] by blast
    then have "t' = t1 \<or> (\<exists>j<length xs. t' = i + 1 + int j + 1 \<and> ID (xs ! j) = tg)"
      using r by simp
    then show ?thesis using e by blast
  next
    case (Suc j0)
    then have "j0 < length xs" "ID (xs ! j0) = tg" using Cons.prems by simp_all
    then show ?thesis using Cons.IH [OF r] by blast
  qed
  then show ?case
  proof
    assume "\<exists>j'<length xs. t' = i + 1 + int j' + 1 \<and> ID (xs ! j') = tg"
    then obtain j' where "j' < length xs" "t' = i + 1 + int j' + 1" "ID (xs ! j') = tg" by blast
    then have "Suc j' < length (x # xs) \<and> t' = i + int (Suc j') + 1 \<and> ID ((x # xs) ! Suc j') = tg"
      by simp
    then show ?thesis by blast
  next
    assume "t' = i + 1 \<and> ID x = tg"
    then have "0 < length (x # xs) \<and> t' = i + int 0 + 1 \<and> ID ((x # xs) ! 0) = tg"
      by simp
    then show ?thesis by blast
  qed
qed

lemma selectRange_exact:
  assumes "distinct (map ID xs)"
    and "lo \<le> length xs" "\<forall>j<length xs. ID (xs ! j) \<in> aMap \<longrightarrow> j < lo"
      "lo = 0 \<or> ID (xs ! (lo - 1)) \<in> aMap"
    and "hi \<le> length xs"
      "(tg \<notin> ID ` set xs \<and> hi = length xs) \<or> (0 < hi \<and> ID (xs ! (hi - 1)) = tg)"
  shows "selectRange aMap tg (map Some xs) = Returned (map Some (drop lo (take hi xs)))"
proof -
  obtain la' t' where r: "scanOrdered aMap tg (map Some xs) 0 (- 1, int (length xs)) = Returned (la', t')"
    and p1: "\<forall>j<length xs. ID (xs ! j) \<in> aMap \<longrightarrow> 0 + int j \<le> la'"
    and p2: "la' = - 1 \<or> (\<exists>j<length xs. la' = 0 + int j \<and> ID (xs ! j) \<in> aMap)"
    and p3: "t' = int (length xs) \<or> (\<exists>j<length xs. t' = 0 + int j + 1 \<and> ID (xs ! j) = tg)"
    using scanOrdered_map_Some [of aMap tg xs 0 "- 1" "int (length xs)"] by blast
  have la: "la' = int lo - 1"
  proof (cases "lo = 0")
    case True
    then show ?thesis using p2 assms(3) by auto
  next
    case False
    then have "lo - 1 < length xs" "ID (xs ! (lo - 1)) \<in> aMap" using assms(2,4) by auto
    then have "int (lo - 1) \<le> la'" using p1 by auto
    moreover have "la' \<le> int lo - 1" using p2 assms(3) False by auto
    ultimately show ?thesis using False by simp
  qed
  have t: "t' = int hi"
  proof (cases "tg \<in> ID ` set xs")
    case False
    then have n: "\<not> (\<exists>j<length xs. ID (xs ! j) = tg)" by (metis imageI nth_mem)
    have "hi = length xs"
    proof (rule ccontr)
      assume "hi \<noteq> length xs"
      then have "0 < hi" "ID (xs ! (hi - 1)) = tg" using assms(6) by auto
      moreover have "hi - 1 < length xs" using assms(5) \<open>0 < hi\<close> by simp
      ultimately show False using n by blast
    qed
    then show ?thesis using p3 n by auto
  next
    case True
    then have h: "0 < hi" "ID (xs ! (hi - 1)) = tg" "hi - 1 < length xs"
      using assms(5,6) by auto
    then obtain j' where j': "j' < length xs" "t' = 0 + int j' + 1" "ID (xs ! j') = tg"
      using scanOrdered_target [OF r h(3) h(2)] by blast
    have "map ID xs ! j' = map ID xs ! (hi - 1)" using j' h by simp
    then have "j' = hi - 1"
      using assms(1) j'(1) h(3) by (simp add: nth_eq_iff_index_eq del: nth_map)
    then show ?thesis using j'(2) h(1) by simp
  qed
  have "drop lo (take hi xs) = (if hi \<le> lo then [] else take (hi - lo) (drop lo xs))"
    by (simp add: drop_take)
  then show ?thesis
    using assms(2,5) by (auto simp: selectRange_def r la t slice_def take_map drop_map)
qed

lemma findMigrationsToApply_exact:
  assumes "validChain a c" "mset ms = mset c"
    and "applied = [] \<or> (\<exists>m\<in>set c. Previous m \<in> set applied)"
    and "lo \<le> length c" "\<forall>j<length c. ID (c ! j) \<in> set applied \<longrightarrow> j < lo"
      "lo = 0 \<or> ID (c ! (lo - 1)) \<in> set applied"
    and "hi \<le> length c"
      "(targetID = [] \<and> hi = length c) \<or> (0 < hi \<and> ID (c ! (hi - 1)) = targetID)"
  shows "findMigrationsToApply ms applied targetID = Some (Returned (map Some (drop lo (take hi c))))"
proof -
  have d: "distinct (map ID c)" "[] \<notin> ID ` set c" using assms(1) by (simp_all add: validChain_def)
  have t: "targetID = [] \<or> targetID \<in> ID ` set c"
    using assms(7,8) by (metis One_nat_def Suc_pred imageI less_eq_Suc_le nth_mem)
  have h: "(targetID \<notin> ID ` set c \<and> hi = length c) \<or> (0 < hi \<and> ID (c ! (hi - 1)) = targetID)"
    using assms(8) d(2) by auto
  show ?thesis
    unfolding findMigrationsToApply_validChain [OF assms(1,2)]
    using assms(3) t selectRange_exact [OF d(1) assms(4,5,6,7) h] by auto
qed

lemma resolve_after_partial_apply:
  assumes "validChain a c" "mset ms = mset c" "K \<le> length c" "K = 0 \<or> 2 \<le> length c"
  shows "findMigrationsToApply ms (map ID (take K c)) [] = Some (Returned (map Some (drop K c)))"
proof -
  have d: "distinct (map ID c)" "isChain a c" using assms(1) by (simp_all add: validChain_def)
  have c1: "map ID (take K c) = [] \<or> (\<exists>m\<in>set c. Previous m \<in> set (map ID (take K c)))"
  proof (cases "K = 0")
    case True
    then show ?thesis by simp
  next
    case False
    then have "2 \<le> length c" "0 < K" using assms(4) by auto
    then have l: "0 < length c" "1 < length c" "0 < K" by linarith+
    have "Previous (c ! 1) = (a # map ID c) ! 1"
      using d(2) l(2) by (rule isChain_nth_Previous)
    also have "\<dots> = map ID c ! 0" by simp
    also have "\<dots> = ID (c ! 0)" using l(1) by (rule nth_map)
    also have "c ! 0 = take K c ! 0" using l(3) by simp
    finally have "Previous (c ! 1) = ID (take K c ! 0)" .
    moreover have "take K c ! 0 \<in> set (take K c)" using l assms(3) by (intro nth_mem) simp
    moreover have "c ! 1 \<in> set c" using l(2) by (rule nth_mem)
    ultimately show ?thesis by auto
  qed
  have c2: "\<forall>j<length c. ID (c ! j) \<in> set (map ID (take K c)) \<longrightarrow> j < K"
  proof (intro allI impI)
    fix j assume j: "j < length c" "ID (c ! j) \<in> set (map ID (take K c))"
    then obtain i where i: "i < length (take K c)" "ID (take K c ! i) = ID (c ! j)"
      by (auto simp: in_set_conv_nth)
    then have "i < K" "i < length c" "map ID c ! i = map ID c ! j" using j(1) by auto
    then have "i = j" using d(1) j(1) by (simp add: nth_eq_iff_index_eq del: nth_map)
    then show "j < K" using \<open>i < K\<close> by simp
  qed
  have c3: "K = 0 \<or> ID (c ! (K - 1)) \<in> set (map ID (take K c))"
  proof (cases "K = 0")
    case True
    then show ?thesis by simp
  next
    case False
    then have "K - 1 < length (take K c)" using assms(3) by simp
    then have "take K c ! (K - 1) \<in> set (take K c)" by (rule nth_mem)
    then show ?thesis using False by auto
  qed
  have "findMigrationsToApply ms (map ID (take K c)) [] =
        Some (Returned (map Some (drop K (take (length c) c))))"
    using assms(1,2) c1 assms(3) c2 c3 by (rule findMigrationsToApply_exact) simp_all
  then show ?thesis by simp
qed

lemma resolve_target_behind_applied:
  assumes "validChain a c" "mset ms = mset c"
    and "\<exists>m\<in>set c. Previous m \<in> set applied"
    and "k < length c" "ID (c ! k) \<in> set applied"
    and "(targetID = [] \<and> k = length c - 1) \<or> (\<exists>t\<le>k. ID (c ! t) = targetID)"
  shows "findMigrationsToApply ms applied targetID = Some (Returned [])"
proof -
  have d: "distinct (map ID c)" "[] \<notin> ID ` set c" using assms(1) by (simp_all add: validChain_def)
  obtain la' t' where r: "scanOrdered (set applied) targetID (map Some c) 0 (- 1, int (length c)) = Returned (la', t')"
    and p1: "\<forall>j<length c. ID (c ! j) \<in> set applied \<longrightarrow> 0 + int j \<le> la'"
    and p3: "t' = int (length c) \<or> (\<exists>j<length c. t' = 0 + int j + 1 \<and> ID (c ! j) = targetID)"
    using scanOrdered_map_Some [of "set applied" targetID c 0 "- 1" "int (length c)"] by blast
  have la: "int k \<le> la'" using p1 assms(4,5) by auto
  have tg: "targetID = [] \<or> targetID \<in> ID ` set c"
    using assms(4,6) by (metis imageI le_less_trans nth_mem)
  have "t' - 1 \<le> la'"
  proof (cases "targetID = []")
    case True
    then have "\<not> (\<exists>j<length c. ID (c ! j) = targetID)" using d(2) by (metis imageI nth_mem)
    then have "t' = int (length c)" using p3 by auto
    moreover have "k = length c - 1"
      using assms(4,6) True d(2) by (metis imageI le_less_trans nth_mem)
    ultimately show ?thesis using la assms(4) by simp
  next
    case False
    then obtain t where t: "t \<le> k" "ID (c ! t) = targetID" using assms(6) by blast
    then have tl: "t < length c" using assms(4) by simp
    obtain j' where j': "j' < length c" "t' = 0 + int j' + 1" "ID (c ! j') = targetID"
      using scanOrdered_target [OF r tl t(2)] by blast
    have "map ID c ! j' = map ID c ! t" using j' t tl by simp
    then have "j' = t" using d(1) j'(1) tl by (simp add: nth_eq_iff_index_eq del: nth_map)
    then show ?thesis using j'(2) t(1) la by simp
  qed
  then have "selectRange (set applied) targetID (map Some c) = Returned []"
    by (simp add: selectRange_def r)
  then show ?thesis
    unfolding findMigrationsToApply_validChain [OF assms(1,2)]
    using assms(3) tg by auto
qed

subsection \<open>Which error a failing call returns\<close>

lemma indexMigrations_error: "indexMigrations aMap ms st = Inl e \<Longrightarrow> e \<noteq> NotCorrelated"
proof (induction ms arbitrary: st)
  case Nil
  then show ?case by simp
next
  case (Cons m ms)
  obtain mM rM af where st: "st = (mM, rM, af)" by (cases st) auto
  show ?case
    using Cons.prems Cons.IH unfolding st
    by (auto simp: Let_def split: if_splits option.splits)
qed

lemma findInitial_error: "findInitial mM ms ini = Inl e \<Longrightarrow> e \<noteq> NotCorrelated"
  by (induction ms arbitrary: ini) (auto split: option.splits)

lemma scanOrdered_not_Failed: "scanOrdered aMap tg ps i st \<noteq> Failed e"
proof (induction ps arbitrary: i st)
  case Nil
  then show ?case by (cases st) simp
next
  case (Cons p ps)
  then show ?case by (cases st; cases p) simp_all
qed

lemma selectRange_not_Failed: "selectRange aMap tg ps \<noteq> Failed e"
  using scanOrdered_not_Failed [of aMap tg ps 0 "(- 1, int (length ps))" e]
  by (auto simp: selectRange_def slice_def split: outcome.splits)

lemma NotCorrelated_iff:
  "findMigrationsToApply ms applied targetID = Some (Failed NotCorrelated) \<Longrightarrow>
   applied \<noteq> [] \<and> (\<forall>m\<in>set ms. Previous m \<notin> set applied)"
proof -
  assume r: "findMigrationsToApply ms applied targetID = Some (Failed NotCorrelated)"
  show ?thesis
  proof (cases "indexMigrations (set applied) ms (Map.empty, Map.empty, set applied = {})")
    case (Inl e)
    then show ?thesis
      using r indexMigrations_error [OF Inl] by (simp add: findMigrationsToApply_def)
  next
    case (Inr st)
    obtain mM rM af where st: "st = (mM, rM, af)" by (cases st) auto
    have af: "af = (set applied = {} \<or> (\<exists>m\<in>set ms. Previous m \<in> set applied))"
      using Inr indexMigrations_appliedFound unfolding st by blast
    show ?thesis
    proof (cases "findInitial mM ms None")
      case (Inl e)
      then show ?thesis
        using r Inr findInitial_error [OF Inl] by (simp add: findMigrationsToApply_def st)
    next
      case (Inr ini)
      have "\<not> af"
        using r selectRange_not_Failed
        unfolding findMigrationsToApply_unfold [OF \<open>indexMigrations _ _ _ = Inr st\<close> [unfolded st] Inr]
        by (auto split: if_splits option.splits)
      then show ?thesis using af by auto
    qed
  qed
qed

lemma unmatched_applied_fails:
  assumes "applied \<noteq> []" "\<forall>m\<in>set ms. Previous m \<notin> set applied"
  shows "\<exists>e. findMigrationsToApply ms applied targetID = Some (Failed e)"
proof (cases "indexMigrations (set applied) ms (Map.empty, Map.empty, set applied = {})")
  case (Inl e)
  then show ?thesis by (simp add: findMigrationsToApply_def)
next
  case (Inr st)
  obtain mM rM af where st: "st = (mM, rM, af)" by (cases st) auto
  have af: "\<not> af"
    using Inr indexMigrations_appliedFound [of "set applied" ms Map.empty Map.empty "set applied = {}" mM rM af] assms
    unfolding st by simp
  show ?thesis
  proof (cases "findInitial mM ms None")
    case (Inl e)
    then show ?thesis using Inr by (simp add: findMigrationsToApply_def st)
  next
    case (Inr ini)
    show ?thesis
      unfolding findMigrationsToApply_unfold [OF \<open>indexMigrations _ _ _ = Inr st\<close> [unfolded st] Inr]
      using af by simp
  qed
qed

lemma findInitial_Inr_Some_start:
  "findInitial mM xs (Some s) = Inr r \<Longrightarrow> filter (\<lambda>m. mM (Previous m) = None) xs = []"
proof (induction xs)
  case Nil
  then show ?case by simp
next
  case (Cons x xs)
  then show ?case by (cases "mM (Previous x)") auto
qed

lemma findInitial_Inr:
  "findInitial mM xs None = Inr r \<Longrightarrow> length (filter (\<lambda>m. mM (Previous m) = None) xs) \<le> 1"
proof (induction xs)
  case Nil
  then show ?case by simp
next
  case (Cons x xs)
  show ?case
  proof (cases "mM (Previous x)")
    case None
    then have "findInitial mM xs (Some (Previous x)) = Inr r" using Cons.prems by simp
    then have "filter (\<lambda>m. mM (Previous m) = None) xs = []" by (rule findInitial_Inr_Some_start)
    then show ?thesis using None by simp
  next
    case (Some y)
    then show ?thesis using Cons by simp
  qed
qed

lemma loops_pass_iff_wellFormed:
  "wellFormed ms \<longleftrightarrow>
     (\<exists>mM rM af ini.
        indexMigrations aMap ms (Map.empty, Map.empty, af0) = Inr (mM, rM, af) \<and>
        findInitial mM ms None = Inr ini)"
proof
  assume w: "wellFormed ms"
  have a: "indexMigrations aMap ms (Map.empty, Map.empty, af0) =
        Inr (byID ms, byPrevious ms, af0 \<or> (\<exists>m\<in>set ms. Previous m \<in> aMap))"
    using w indexMigrations_ok [of ms Map.empty Map.empty aMap af0]
    by (simp add: wellFormed_def)
  have b: "findInitial (byID ms) ms None =
        Inr (map_option Previous (case dangling ms of [] \<Rightarrow> None | d # ds \<Rightarrow> Some d))"
    using w by (simp add: wellFormed_def findInitial_byID)
  show "\<exists>mM rM af ini.
        indexMigrations aMap ms (Map.empty, Map.empty, af0) = Inr (mM, rM, af) \<and>
        findInitial mM ms None = Inr ini"
    using a b by blast
next
  assume "\<exists>mM rM af ini.
        indexMigrations aMap ms (Map.empty, Map.empty, af0) = Inr (mM, rM, af) \<and>
        findInitial mM ms None = Inr ini"
  then obtain mM rM af ini where
    i: "indexMigrations aMap ms (Map.empty, Map.empty, af0) = Inr (mM, rM, af)"
    and f: "findInitial mM ms None = Inr ini" by blast
  note m = indexMigrations_maps [OF i]
  have "length (filter (\<lambda>m. byID ms (Previous m) = None) ms) \<le> 1"
    using f unfolding m(1) by (rule findInitial_Inr)
  then have "length (dangling ms) \<le> 1" by (simp add: dangling_def byID_None)
  then show "wellFormed ms" using m(3,4,5) by (simp add: wellFormed_def)
qed

lemma first_loop_error:
  "indexMigrations (set applied) ms (Map.empty, Map.empty, set applied = {}) = Inl e \<Longrightarrow>
   findMigrationsToApply ms applied targetID = Some (Failed e)"
  by (simp add: findMigrationsToApply_def)

lemma second_loop_error:
  "indexMigrations (set applied) ms (Map.empty, Map.empty, set applied = {}) = Inr (mM, rM, af) \<Longrightarrow>
   findInitial mM ms None = Inl e \<Longrightarrow>
   findMigrationsToApply ms applied targetID = Some (Failed e)"
  by (simp add: findMigrationsToApply_def)

lemma NotCorrelated_exact:
  "findMigrationsToApply ms applied targetID = Some (Failed NotCorrelated) \<longleftrightarrow>
   wellFormed ms \<and> applied \<noteq> [] \<and> (\<forall>m\<in>set ms. Previous m \<notin> set applied)"
proof
  assume r: "findMigrationsToApply ms applied targetID = Some (Failed NotCorrelated)"
  have n: "applied \<noteq> [] \<and> (\<forall>m\<in>set ms. Previous m \<notin> set applied)"
    using r by (rule NotCorrelated_iff)
  have "wellFormed ms"
  proof (rule ccontr)
    assume "\<not> wellFormed ms"
    then have "\<not> (\<exists>mM rM af ini.
        indexMigrations (set applied) ms (Map.empty, Map.empty, set applied = {}) = Inr (mM, rM, af) \<and>
        findInitial mM ms None = Inr ini)"
      using loops_pass_iff_wellFormed [of ms "set applied" "set applied = {}"] by simp
    then show False
    proof (cases "indexMigrations (set applied) ms (Map.empty, Map.empty, set applied = {})")
      case (Inl e)
      then show ?thesis
        using r first_loop_error [OF Inl, of targetID] indexMigrations_error [OF Inl] by simp
    next
      case (Inr st)
      obtain mM rM af where st: "st = (mM, rM, af)" by (cases st) auto
      note i = Inr [unfolded st]
      assume no: "\<not> (\<exists>mM rM af ini.
        indexMigrations (set applied) ms (Map.empty, Map.empty, set applied = {}) = Inr (mM, rM, af) \<and>
        findInitial mM ms None = Inr ini)"
      then obtain e where f: "findInitial mM ms None = Inl e"
        using i by (cases "findInitial mM ms None") auto
      show ?thesis
        using r second_loop_error [OF i f, of targetID] findInitial_error [OF f] by simp
    qed
  qed
  then show "wellFormed ms \<and> applied \<noteq> [] \<and> (\<forall>m\<in>set ms. Previous m \<notin> set applied)"
    using n by simp
next
  assume "wellFormed ms \<and> applied \<noteq> [] \<and> (\<forall>m\<in>set ms. Previous m \<notin> set applied)"
  then show "findMigrationsToApply ms applied targetID = Some (Failed NotCorrelated)"
    by (simp add: findMigrationsToApply_wellFormed)
qed

lemma indexMigrations_append:
  "indexMigrations aMap (xs @ ys) st =
     (case indexMigrations aMap xs st of Inl e \<Rightarrow> Inl e | Inr st' \<Rightarrow> indexMigrations aMap ys st')"
proof (induction xs arbitrary: st)
  case Nil
  then show ?case by simp
next
  case (Cons x xs)
  obtain mM rM af where st: "st = (mM, rM, af)" by (cases st) auto
  show ?case
    unfolding st using Cons.IH
    by (simp add: Let_def split: option.splits)
qed

lemma indexMigrations_first_offender:
  assumes "[] \<notin> ID ` set pre" "distinct (map ID pre)" "distinct (map Previous pre)"
  shows "indexMigrations aMap (pre @ m # post) (Map.empty, Map.empty, af) =
     (if ID m = [] then Inl EmptyID
      else case byID pre (ID m) of
             Some prev \<Rightarrow> Inl (DuplicateID (ID m) (Previous prev))
           | None \<Rightarrow>
               (case byPrevious pre (Previous m) of
                  Some curID \<Rightarrow> Inl (DuplicatePrevious (Previous m) curID)
                | None \<Rightarrow>
                    indexMigrations aMap post
                      ((byID pre)(ID m \<mapsto> m), (byPrevious pre)(Previous m \<mapsto> ID m),
                       (af \<or> (\<exists>x\<in>set pre. Previous x \<in> aMap)) \<or> Previous m \<in> aMap)))"
proof -
  have a: "indexMigrations aMap pre (Map.empty, Map.empty, af) =
        Inr (Map.empty ++ byID pre, Map.empty ++ byPrevious pre, af \<or> (\<exists>x\<in>set pre. Previous x \<in> aMap))"
    using assms by (intro indexMigrations_ok) simp_all
  show ?thesis
    unfolding indexMigrations_append a
    by (auto simp: Let_def split: option.splits)
qed

lemma findInitial_second_dangling:
  "filter (\<lambda>m. mM (Previous m) = None) xs = d1 # d2 # rest \<Longrightarrow>
   findInitial mM xs None = Inl (InvalidPrevious (ID d2) (Previous d2))"
proof (induction xs)
  case Nil
  then show ?case by simp
next
  case (Cons x xs)
  show ?case
  proof (cases "mM (Previous x)")
    case None
    then have f: "filter (\<lambda>m. mM (Previous m) = None) xs = d2 # rest" using Cons.prems by simp
    have "findInitial mM xs (Some s) = Inl (InvalidPrevious (ID d2) (Previous d2))" for s
      using f
    proof (induction xs)
      case Nil
      then show ?case by simp
    next
      case (Cons y ys)
      then show ?case by (cases "mM (Previous y)") auto
    qed
    then show ?thesis using None by simp
  next
    case (Some y)
    then show ?thesis using Cons by simp
  qed
qed

lemma first_loop_reports:
  assumes "ms = pre @ m # post"
    and "[] \<notin> ID ` set pre" "distinct (map ID pre)" "distinct (map Previous pre)"
  shows "ID m = [] \<longrightarrow> findMigrationsToApply ms applied targetID = Some (Failed EmptyID)"
    and "ID m \<noteq> [] \<and> prev \<in> set pre \<and> ID prev = ID m \<longrightarrow>
         findMigrationsToApply ms applied targetID =
           Some (Failed (DuplicateID (ID m) (Previous prev)))"
    and "ID m \<noteq> [] \<and> ID m \<notin> ID ` set pre \<and> nxt \<in> set pre \<and> Previous nxt = Previous m \<longrightarrow>
         findMigrationsToApply ms applied targetID =
           Some (Failed (DuplicatePrevious (Previous m) (ID nxt)))"
proof -
  note o = indexMigrations_first_offender [OF assms(2-4), of "set applied" m post "set applied = {}"]
  show "ID m = [] \<longrightarrow> findMigrationsToApply ms applied targetID = Some (Failed EmptyID)"
    using o unfolding assms(1) by (auto intro: first_loop_error)
  show "ID m \<noteq> [] \<and> prev \<in> set pre \<and> ID prev = ID m \<longrightarrow>
         findMigrationsToApply ms applied targetID =
           Some (Failed (DuplicateID (ID m) (Previous prev)))"
  proof
    assume h: "ID m \<noteq> [] \<and> prev \<in> set pre \<and> ID prev = ID m"
    then have "byID pre (ID m) = Some prev"
      using byID_Some [OF assms(3), of prev] by simp
    then have "indexMigrations (set applied) (pre @ m # post) (Map.empty, Map.empty, set applied = {}) =
        Inl (DuplicateID (ID m) (Previous prev))"
      using o h by simp
    then show "findMigrationsToApply ms applied targetID =
           Some (Failed (DuplicateID (ID m) (Previous prev)))"
      unfolding assms(1) by (rule first_loop_error)
  qed
  show "ID m \<noteq> [] \<and> ID m \<notin> ID ` set pre \<and> nxt \<in> set pre \<and> Previous nxt = Previous m \<longrightarrow>
         findMigrationsToApply ms applied targetID =
           Some (Failed (DuplicatePrevious (Previous m) (ID nxt)))"
  proof
    assume h: "ID m \<noteq> [] \<and> ID m \<notin> ID ` set pre \<and> nxt \<in> set pre \<and> Previous nxt = Previous m"
    then have "byID pre (ID m) = None" by (simp add: byID_None)
    moreover have "byPrevious pre (Previous m) = Some (ID nxt)"
      using byPrevious_Some [OF assms(4), of nxt] h by simp
    ultimately have "indexMigrations (set applied) (pre @ m # post) (Map.empty, Map.empty, set applied = {}) =
        Inl (DuplicatePrevious (Previous m) (ID nxt))"
      using o h by simp
    then show "findMigrationsToApply ms applied targetID =
           Some (Failed (DuplicatePrevious (Previous m) (ID nxt)))"
      unfolding assms(1) by (rule first_loop_error)
  qed
qed

lemma second_loop_reports:
  assumes "[] \<notin> ID ` set ms" "distinct (map ID ms)" "distinct (map Previous ms)"
    and "dangling ms = d1 # d2 # rest"
  shows "findMigrationsToApply ms applied targetID =
           Some (Failed (InvalidPrevious (ID d2) (Previous d2)))"
proof -
  have a: "indexMigrations (set applied) ms (Map.empty, Map.empty, set applied = {}) =
        Inr (Map.empty ++ byID ms, Map.empty ++ byPrevious ms,
             set applied = {} \<or> (\<exists>x\<in>set ms. Previous x \<in> set applied))"
    using assms(1-3) by (intro indexMigrations_ok) simp_all
  have "filter (\<lambda>m. byID ms (Previous m) = None) ms = d1 # d2 # rest"
    using assms(4) by (simp add: dangling_def byID_None)
  then have f: "findInitial (byID ms) ms None = Inl (InvalidPrevious (ID d2) (Previous d2))"
    by (rule findInitial_second_dangling)
  show ?thesis
    using a f by (intro second_loop_error [of applied ms "byID ms" "byPrevious ms"]) simp_all
qed

lemma first_offender_exists:
  "\<not> ([] \<notin> ID ` set ms \<and> distinct (map ID ms) \<and> distinct (map Previous ms)) \<Longrightarrow>
   \<exists>pre m post. ms = pre @ m # post \<and>
     [] \<notin> ID ` set pre \<and> distinct (map ID pre) \<and> distinct (map Previous pre) \<and>
     (ID m = [] \<or> ID m \<in> ID ` set pre \<or> Previous m \<in> Previous ` set pre)"
proof (induction ms rule: rev_induct)
  case Nil
  then show ?case by simp
next
  case (snoc x xs)
  show ?case
  proof (cases "[] \<notin> ID ` set xs \<and> distinct (map ID xs) \<and> distinct (map Previous xs)")
    case True
    then have "ID x = [] \<or> ID x \<in> ID ` set xs \<or> Previous x \<in> Previous ` set xs"
      using snoc.prems by auto
    then have "xs @ [x] = xs @ x # [] \<and>
       [] \<notin> ID ` set xs \<and> distinct (map ID xs) \<and> distinct (map Previous xs) \<and>
       (ID x = [] \<or> ID x \<in> ID ` set xs \<or> Previous x \<in> Previous ` set xs)"
      using True by simp
    then show ?thesis by blast
  next
    case False
    then obtain pre m post where "xs = pre @ m # post"
      "[] \<notin> ID ` set pre \<and> distinct (map ID pre) \<and> distinct (map Previous pre) \<and>
       (ID m = [] \<or> ID m \<in> ID ` set pre \<or> Previous m \<in> Previous ` set pre)"
      using snoc.IH by blast
    then have "xs @ [x] = pre @ m # (post @ [x]) \<and>
       [] \<notin> ID ` set pre \<and> distinct (map ID pre) \<and> distinct (map Previous pre) \<and>
       (ID m = [] \<or> ID m \<in> ID ` set pre \<or> Previous m \<in> Previous ` set pre)"
      by simp
    then show ?thesis by blast
  qed
qed

lemma not_wellFormed_cases:
  assumes "\<not> wellFormed ms"
  shows "(\<exists>pre m post. ms = pre @ m # post \<and>
            [] \<notin> ID ` set pre \<and> distinct (map ID pre) \<and> distinct (map Previous pre) \<and>
            (ID m = [] \<or> ID m \<in> ID ` set pre \<or> Previous m \<in> Previous ` set pre)) \<or>
         ([] \<notin> ID ` set ms \<and> distinct (map ID ms) \<and> distinct (map Previous ms) \<and>
          (\<exists>d1 d2 rest. dangling ms = d1 # d2 # rest))"
proof (cases "[] \<notin> ID ` set ms \<and> distinct (map ID ms) \<and> distinct (map Previous ms)")
  case True
  then have "1 < length (dangling ms)" using assms by (auto simp: wellFormed_def)
  then obtain d1 d2 rest where "dangling ms = d1 # d2 # rest"
    by (cases "dangling ms"; cases "tl (dangling ms)") auto
  then show ?thesis using True by blast
next
  case False
  then show ?thesis using first_offender_exists by blast
qed

subsection \<open>The slice expression stays in range\<close>

lemma scanOrdered_Panicked: "scanOrdered aMap tg ps i st = Panicked p \<Longrightarrow> p = NilDereference"
proof (induction ps arbitrary: i st)
  case Nil
  then show ?case by (cases st) simp
next
  case (Cons q ps)
  obtain la t where st: "st = (la, t)" by (cases st) auto
  show ?case
    using Cons.prems Cons.IH unfolding st
    by (cases q) auto
qed

lemma selectRange_no_SliceBounds: "selectRange aMap tg ps \<noteq> Panicked SliceBounds"
proof (cases "scanOrdered aMap tg ps 0 (- 1, int (length ps))")
  case (Returned r)
  obtain la' t' where r: "r = (la', t')" by (cases r) auto
  have "None \<notin> set ps" using Returned by (rule scanOrdered_Returned_no_nil)
  then have ps: "ps = map Some (map the ps)" by (induction ps) auto
  define xs where "xs = map the ps"
  have l: "length ps = length xs" by (simp add: xs_def)
  obtain la2 t2 where s: "scanOrdered aMap tg (map Some xs) 0 (- 1, int (length xs)) = Returned (la2, t2)"
    and p2: "la2 = - 1 \<or> (\<exists>j<length xs. la2 = 0 + int j \<and> ID (xs ! j) \<in> aMap)"
    and p3: "t2 = int (length xs) \<or> (\<exists>j<length xs. t2 = 0 + int j + 1 \<and> ID (xs ! j) = tg)"
    using scanOrdered_map_Some [of aMap tg xs 0 "- 1" "int (length xs)"] by blast
  have "la2 = la'" "t2 = t'"
    using s Returned ps unfolding r l xs_def by simp_all
  then have b: "- 1 \<le> la'" "t' \<le> int (length ps)" using p2 p3 l by auto
  show ?thesis
    using b by (simp add: selectRange_def Returned r slice_def)
next
  case (Failed e)
  then show ?thesis by (simp add: selectRange_def)
next
  case (Panicked p)
  then have "p = NilDereference" by (rule scanOrdered_Panicked)
  then show ?thesis using Panicked by (simp add: selectRange_def)
qed

subsection \<open>No dangling previous\<close>

lemma no_dangling_panics:
  assumes "[] \<notin> ID ` set ms" "distinct (map ID ms)" "distinct (map Previous ms)"
    and "Previous ` set ms \<subseteq> ID ` set ms"
    and "applied = [] \<or> (\<exists>m\<in>set ms. Previous m \<in> set applied)"
    and "targetID = [] \<or> targetID \<in> ID ` set ms"
  shows "findMigrationsToApply ms applied targetID = Some (Panicked NilDereference)"
proof -
  have d: "dangling ms = []"
    using assms(4) by (auto simp: dangling_def filter_empty_conv)
  have w: "wellFormed ms"
    using assms(1-3) d by (simp add: wellFormed_def)
  show ?thesis
    using assms(5,6) by (auto simp: findMigrationsToApply_wellFormed [OF w] d)
qed

subsection \<open>The transaction\<close>

lemma migrationTx_DisableFK: "migrationTx drv ds (m\<lparr>DisableFK := b\<rparr>) = migrationTx drv ds m"
  by (rule ext, rule ext)
     (simp add: migrationTx_def cong: option.case_cong prod.case_cong outcome.case_cong)

lemma withTx_last:
  "withTx drv fn tr1 = (err, tr2) \<Longrightarrow>
   tr2 \<noteq> [] \<and>
   (err = Returned () \<longrightarrow> last tr2 = CommitCall) \<and>
   (isPanicked err \<longrightarrow> last tr2 = RollbackCall) \<and>
   (last tr2 = CommitCall \<or> last tr2 = RollbackCall \<or> (last tr2 = BeginCall \<and> (\<exists>e. err = Failed e)))"
  by (auto simp: withTx_def wrapTx_def Begin_def Commit_def Rollback_def isPanicked_def
        split: prod.splits option.splits outcome.splits)

text \<open>
  What applyMigration does once the disable step has succeeded, by the way withTx ends. If
  withTx returns (nil or an error; \<open>tr2\<close> then ends with the Commit, the Rollback or the
  failed Begin), enableFKs runs next and its error, if any, replaces \<open>err\<close>. If withTx
  panics, \<open>tr2\<close> ends with the Rollback of wrapTx and applyMigration panics there.
\<close>

lemma applyMigration_after_withTx:
  assumes "DisableFK m"
    and "disableFKs ds drv OnDB tr = (Returned (), tr1)"
    and "withTx drv (migrationTx drv ds m) tr1 = (err, tr2)"
    and "enableFKs ds drv OnDB tr2 = (fkErr, tr3)"
  shows "applyMigration drv ds m tr =
           (if isPanicked err then (err, tr2)
            else if fkErr = Returned () then (err, tr3)
            else (fkErr, tr3)) \<and>
         tr2 \<noteq> [] \<and>
         (err = Returned () \<longrightarrow> last tr2 = CommitCall) \<and>
         (isPanicked err \<longrightarrow> last tr2 = RollbackCall) \<and>
         (last tr2 = CommitCall \<or> last tr2 = RollbackCall \<or>
          (last tr2 = BeginCall \<and> (\<exists>e. err = Failed e))) \<and>
         (ds = SqliteSupp \<longrightarrow>
            tr3 = tr2 @ [ExecCall OnDB ''PRAGMA foreign_keys = ON; PRAGMA legacy_alter_table = OFF;'' []])"
proof -
  have a: "applyMigration drv ds m tr =
           (if isPanicked err then (err, tr2)
            else if fkErr = Returned () then (err, tr3)
            else (fkErr, tr3))"
    using assms by (cases err; cases fkErr) (simp_all add: applyMigration_def isPanicked_def)
  have b: "ds = SqliteSupp \<longrightarrow>
            tr3 = tr2 @ [ExecCall OnDB ''PRAGMA foreign_keys = ON; PRAGMA legacy_alter_table = OFF;'' []]"
    using assms(4) by (auto simp: Exec_def split: option.splits)
  show ?thesis using a b withTx_last [OF assms(3)] by blast
qed

text \<open>On SQLite: the transaction commits, the enable statement fails, and its error is what
  applyMigration returns.\<close>

lemma applyMigration_after_withTx_example:
  "DisableFK fkMigration \<and>
   disableFKs SqliteSupp enableFailsDriver OnDB [] =
     (Returned (), [ExecCall OnDB ''PRAGMA legacy_alter_table = ON; PRAGMA foreign_keys = OFF;'' []]) \<and>
   withTx enableFailsDriver (migrationTx enableFailsDriver SqliteSupp fkMigration)
       [ExecCall OnDB ''PRAGMA legacy_alter_table = ON; PRAGMA foreign_keys = OFF;'' []] =
     (Returned (),
      [ExecCall OnDB ''PRAGMA legacy_alter_table = ON; PRAGMA foreign_keys = OFF;'' [],
       BeginCall,
       ExecCall OnTx ''CREATE TABLE a (id INTEGER)'' [],
       ExecCall OnTx (''INSERT INTO migrations (desc, id, at) VALUES (?, ?, DATE('' @ [CHR 0x27] @
              ''now'' @ [CHR 0x27] @ ''));'') [[], ''1''],
       CommitCall]) \<and>
   applyMigration enableFailsDriver SqliteSupp fkMigration [] =
     (Failed (SqliteDisableFK (External ''database is locked'')),
      [ExecCall OnDB ''PRAGMA legacy_alter_table = ON; PRAGMA foreign_keys = OFF;'' [],
       BeginCall,
       ExecCall OnTx ''CREATE TABLE a (id INTEGER)'' [],
       ExecCall OnTx (''INSERT INTO migrations (desc, id, at) VALUES (?, ?, DATE('' @ [CHR 0x27] @
              ''now'' @ [CHR 0x27] @ ''));'') [[], ''1''],
       CommitCall,
       ExecCall OnDB ''PRAGMA foreign_keys = ON; PRAGMA legacy_alter_table = OFF;'' []])"
proof -
  let ?d = "ExecCall OnDB ''PRAGMA legacy_alter_table = ON; PRAGMA foreign_keys = OFF;'' []"
  let ?tr2 = "[?d, BeginCall, ExecCall OnTx ''CREATE TABLE a (id INTEGER)'' [],
       ExecCall OnTx (''INSERT INTO migrations (desc, id, at) VALUES (?, ?, DATE('' @ [CHR 0x27] @
              ''now'' @ [CHR 0x27] @ ''));'') [[], ''1''],
       CommitCall]"
  have m: "DisableFK fkMigration" by (simp add: fkMigration_def)
  have a: "disableFKs SqliteSupp enableFailsDriver OnDB [] = (Returned (), [?d])"
    by (simp add: Exec_def enableFailsDriver_def okDriver_def)
  have b: "withTx enableFailsDriver (migrationTx enableFailsDriver SqliteSupp fkMigration) [?d] =
           (Returned (), ?tr2)"
    by code_simp
  have c: "enableFKs SqliteSupp enableFailsDriver OnDB ?tr2 =
           (Failed (SqliteDisableFK (External ''database is locked'')),
            ?tr2 @ [ExecCall OnDB ''PRAGMA foreign_keys = ON; PRAGMA legacy_alter_table = OFF;'' []])"
    by (simp add: Exec_def enableFailsDriver_def okDriver_def)
  show ?thesis
    using m a b applyMigration_after_withTx [OF m a b c]
    by (simp add: isPanicked_def)
qed

section \<open>The claims\<close>

text \<open>
  \<^bold>\<open>C1\<close> (cycles are a validation error). The code does not do this. When every
  previous is the id of a supplied migration, \<open>initialID\<close> stays nil and the walk
  dereferences it: the call panics. When a cycle stands beside a chain with an anchor, the
  walk never reaches it and the chain is returned with no error. The two evaluations:
\<close>

theorem cycle_is_not_rejected:
  "findMigrationsToApply [mig ''2'' ''1'', mig ''1'' ''2'' :: unit Migration] [] [] =
     Some (Panicked NilDereference) \<and>
   findMigrationsToApply [mig [] ''1'', mig ''3'' ''2'', mig ''2'' ''3'' :: unit Migration] [] [] =
     Some (Returned [Some (mig [] ''1'')])"
  by code_simp

text \<open>
  \<^bold>\<open>C2\<close> (enableFKs runs after the transaction whether it committed or rolled back).
  The code does not do this when a hook panics: wrapTx rolls the transaction back and
  raises the panic again, and applyMigration, which has no deferred call, ends before the
  enable step; the last call is the Rollback and foreign keys stay off. The sibling path
  does restore them: with a hook that returns an error instead, the same migration is
  rolled back and the enable statement follows. On every path where withTx returns the
  claim holds, and a failing enable step replaces the error
  (\<open>applyMigration_after_withTx\<close>).
\<close>

theorem panic_in_transaction_skips_enableFKs:
  "DisableFK panicMigration \<and>
   applyMigration okDriver SqliteSupp panicMigration [] =
     (Panicked (HookPanic ''boom''),
      [ExecCall OnDB ''PRAGMA legacy_alter_table = ON; PRAGMA foreign_keys = OFF;'' [],
       BeginCall, RollbackCall]) \<and>
   DisableFK failMigration \<and>
   applyMigration okDriver SqliteSupp failMigration [] =
     (Failed (PreUpgradeFailed ''1'' (External ''hook failed'')),
      [ExecCall OnDB ''PRAGMA legacy_alter_table = ON; PRAGMA foreign_keys = OFF;'' [],
       BeginCall, RollbackCall,
       ExecCall OnDB ''PRAGMA foreign_keys = ON; PRAGMA legacy_alter_table = OFF;'' []])"
  by (simp add: applyMigration_def panicMigration_def failMigration_def mig_def panicHook_def
        failHook_def okDriver_def withTx_def wrapTx_def migrationTx_def Exec_def Begin_def
        Rollback_def)

text \<open>
  \<^bold>\<open>C3\<close> (a target at or behind the last applied migration gives the empty result and no
  error). The code does not do this when the only applied id of the chain is its last id:
  no migration has that id as previous, so the correlation check fails first. A chain of
  one migration that is applied (the test "ok, single applied" of the package), and a chain
  of two whose applied id and target are the last one. Where the correlation check passes,
  the code does what the claim says (\<open>resolve_target_behind_applied\<close>).
\<close>

theorem fully_applied_single_migration_is_rejected:
  "validChain [] [mig [] ''1'' :: unit Migration] \<and>
   set [''1''] = ID ` set [mig [] ''1'' :: unit Migration] \<and>
   findMigrationsToApply [mig [] ''1'' :: unit Migration] [''1''] [] = Some (Failed NotCorrelated) \<and>
   findMigrationsToApply [mig [] ''1'', mig ''1'' ''2'' :: unit Migration] [''2''] ''2'' =
     Some (Failed NotCorrelated)"
  by (simp add: validChain_def mig_def findMigrationsToApply_def)

text \<open>
  \<^bold>\<open>C4\<close> (after the first K ids are applied, the rest of the chain is returned). The
  code does not do this for a chain of length one with K = 1: the result is the
  correlation error, not the empty rest. For K = 0 and for every longer chain the code
  does what the claim says (\<open>resolve_after_partial_apply\<close>).
\<close>

theorem partial_apply_of_single_migration_is_rejected:
  "validChain [] [mig [] ''1'' :: unit Migration] \<and>
   findMigrationsToApply [mig [] ''1'' :: unit Migration]
     (map ID (take 1 [mig [] ''1'' :: unit Migration])) [] = Some (Failed NotCorrelated)"
  by (simp add: validChain_def mig_def findMigrationsToApply_def)

text \<open>
  \<^bold>\<open>C5\<close> (the result does not depend on the declaration order). For a list that the
  first two loops accept (\<open>wellFormed\<close>; every valid migration set is, by
  \<open>validChain_wellFormed\<close> and \<open>perm_wellFormed\<close>), every permutation of the list gives
  the same outcome, for every applied list and target: the same ordered result, the same
  error, the same panic. The call ends in each case (the walk is finite).
\<close>

theorem resolve_order_independent:
  assumes "wellFormed ms" "mset ms' = mset ms"
  shows "findMigrationsToApply ms' applied targetID = findMigrationsToApply ms applied targetID \<and>
         findMigrationsToApply ms applied targetID \<noteq> None"
  using assms findMigrationsToApply_perm findMigrationsToApply_total by blast

text \<open>
  Witness for C5: the test "arbitrary order" of the package, with an applied id and a
  target.
\<close>

theorem resolve_order_independent_witness:
  "wellFormed [mig [] ''1'', mig ''1'' ''2'', mig ''2'' ''3'', mig ''3'' ''4'' :: unit Migration] \<and>
   mset [mig [] ''1'', mig ''1'' ''2'', mig ''3'' ''4'', mig ''2'' ''3'' :: unit Migration] =
   mset [mig [] ''1'', mig ''1'' ''2'', mig ''2'' ''3'', mig ''3'' ''4''] \<and>
   findMigrationsToApply [mig [] ''1'', mig ''1'' ''2'', mig ''3'' ''4'', mig ''2'' ''3'' :: unit Migration] [''1''] ''3'' =
   findMigrationsToApply [mig [] ''1'', mig ''1'' ''2'', mig ''2'' ''3'', mig ''3'' ''4''] [''1''] ''3'' \<and>
   findMigrationsToApply [mig [] ''1'', mig ''1'' ''2'', mig ''2'' ''3'', mig ''3'' ''4'' :: unit Migration] [''1''] ''3'' =
     Some (Returned [Some (mig ''1'' ''2''), Some (mig ''2'' ''3'')])"
proof -
  have w: "wellFormed [mig [] ''1'', mig ''1'' ''2'', mig ''2'' ''3'', mig ''3'' ''4'' :: unit Migration]"
    by (simp add: wellFormed_def dangling_def mig_def)
  have p: "mset [mig [] ''1'', mig ''1'' ''2'', mig ''3'' ''4'', mig ''2'' ''3'' :: unit Migration] =
           mset [mig [] ''1'', mig ''1'' ''2'', mig ''2'' ''3'', mig ''3'' ''4'']"
    by simp
  have e: "findMigrationsToApply [mig [] ''1'', mig ''1'' ''2'', mig ''2'' ''3'', mig ''3'' ''4'' :: unit Migration] [''1''] ''3'' =
     Some (Returned [Some (mig ''1'' ''2''), Some (mig ''2'' ''3'')])"
    by code_simp
  show ?thesis
    using w p e resolve_order_independent [OF w p, of "[''1'']" "''3''"] by (simp only: simp_thms)
qed

text \<open>
  \<^bold>\<open>C6\<close> (the correlation check), as the code has it. When the applied list is not empty
  and no applied id is the previous of a supplied migration, the call returns an error and
  no result. The error is \<open>NotCorrelated\<close> exactly when the checks that run before it
  pass (\<open>wellFormed\<close>). Otherwise it is the error of the first check that fails, whatever
  the applied list: for the first migration in declaration order that has an empty id,
  repeats an earlier id or repeats an earlier previous, it is \<open>EmptyID\<close>,
  \<open>DuplicateID\<close> or \<open>DuplicatePrevious\<close>, tested in that order; when there is no such
  migration, it is \<open>InvalidPrevious\<close> for the second migration whose previous is the id
  of none. A list that is not well-formed is in one of these two cases. When the applied
  list is empty or some applied id is the previous of a migration, \<open>NotCorrelated\<close> is
  not returned.
\<close>

theorem correlation_check:
  "(applied \<noteq> [] \<and> (\<forall>m\<in>set ms. Previous m \<notin> set applied) \<longrightarrow>
      (\<exists>e. findMigrationsToApply ms applied targetID = Some (Failed e)) \<and>
      (wellFormed ms \<longrightarrow> findMigrationsToApply ms applied targetID = Some (Failed NotCorrelated))) \<and>
   (applied = [] \<or> (\<exists>m\<in>set ms. Previous m \<in> set applied) \<longrightarrow>
      findMigrationsToApply ms applied targetID \<noteq> Some (Failed NotCorrelated)) \<and>
   (findMigrationsToApply ms applied targetID = Some (Failed NotCorrelated) \<longleftrightarrow>
      wellFormed ms \<and> applied \<noteq> [] \<and> (\<forall>m\<in>set ms. Previous m \<notin> set applied)) \<and>
   (\<forall>pre m post.
      ms = pre @ m # post \<and>
      [] \<notin> ID ` set pre \<and> distinct (map ID pre) \<and> distinct (map Previous pre) \<longrightarrow>
      (ID m = [] \<longrightarrow> findMigrationsToApply ms applied targetID = Some (Failed EmptyID)) \<and>
      (\<forall>prev\<in>set pre. ID m \<noteq> [] \<and> ID prev = ID m \<longrightarrow>
         findMigrationsToApply ms applied targetID =
           Some (Failed (DuplicateID (ID m) (Previous prev)))) \<and>
      (\<forall>nxt\<in>set pre. ID m \<noteq> [] \<and> ID m \<notin> ID ` set pre \<and> Previous nxt = Previous m \<longrightarrow>
         findMigrationsToApply ms applied targetID =
           Some (Failed (DuplicatePrevious (Previous m) (ID nxt))))) \<and>
   (\<forall>d1 d2 rest.
      [] \<notin> ID ` set ms \<and> distinct (map ID ms) \<and> distinct (map Previous ms) \<and>
      dangling ms = d1 # d2 # rest \<longrightarrow>
      findMigrationsToApply ms applied targetID =
        Some (Failed (InvalidPrevious (ID d2) (Previous d2)))) \<and>
   (\<not> wellFormed ms \<longrightarrow>
      (\<exists>pre m post. ms = pre @ m # post \<and>
         [] \<notin> ID ` set pre \<and> distinct (map ID pre) \<and> distinct (map Previous pre) \<and>
         (ID m = [] \<or> ID m \<in> ID ` set pre \<or> Previous m \<in> Previous ` set pre)) \<or>
      ([] \<notin> ID ` set ms \<and> distinct (map ID ms) \<and> distinct (map Previous ms) \<and>
       (\<exists>d1 d2 rest. dangling ms = d1 # d2 # rest)))"
proof (intro conjI)
  show "applied \<noteq> [] \<and> (\<forall>m\<in>set ms. Previous m \<notin> set applied) \<longrightarrow>
      (\<exists>e. findMigrationsToApply ms applied targetID = Some (Failed e)) \<and>
      (wellFormed ms \<longrightarrow> findMigrationsToApply ms applied targetID = Some (Failed NotCorrelated))"
    by (simp add: unmatched_applied_fails findMigrationsToApply_wellFormed)
  show "applied = [] \<or> (\<exists>m\<in>set ms. Previous m \<in> set applied) \<longrightarrow>
      findMigrationsToApply ms applied targetID \<noteq> Some (Failed NotCorrelated)"
    using NotCorrelated_iff [of ms applied targetID] by blast
  show "findMigrationsToApply ms applied targetID = Some (Failed NotCorrelated) \<longleftrightarrow>
      wellFormed ms \<and> applied \<noteq> [] \<and> (\<forall>m\<in>set ms. Previous m \<notin> set applied)"
    by (rule NotCorrelated_exact)
  show "\<forall>pre m post.
      ms = pre @ m # post \<and>
      [] \<notin> ID ` set pre \<and> distinct (map ID pre) \<and> distinct (map Previous pre) \<longrightarrow>
      (ID m = [] \<longrightarrow> findMigrationsToApply ms applied targetID = Some (Failed EmptyID)) \<and>
      (\<forall>prev\<in>set pre. ID m \<noteq> [] \<and> ID prev = ID m \<longrightarrow>
         findMigrationsToApply ms applied targetID =
           Some (Failed (DuplicateID (ID m) (Previous prev)))) \<and>
      (\<forall>nxt\<in>set pre. ID m \<noteq> [] \<and> ID m \<notin> ID ` set pre \<and> Previous nxt = Previous m \<longrightarrow>
         findMigrationsToApply ms applied targetID =
           Some (Failed (DuplicatePrevious (Previous m) (ID nxt))))"
  proof (intro allI impI)
    fix pre m post
    assume h: "ms = pre @ m # post \<and>
      [] \<notin> ID ` set pre \<and> distinct (map ID pre) \<and> distinct (map Previous pre)"
    then have h1: "ms = pre @ m # post" and h2: "[] \<notin> ID ` set pre"
      and h3: "distinct (map ID pre)" and h4: "distinct (map Previous pre)" by simp_all
    show "(ID m = [] \<longrightarrow> findMigrationsToApply ms applied targetID = Some (Failed EmptyID)) \<and>
      (\<forall>prev\<in>set pre. ID m \<noteq> [] \<and> ID prev = ID m \<longrightarrow>
         findMigrationsToApply ms applied targetID =
           Some (Failed (DuplicateID (ID m) (Previous prev)))) \<and>
      (\<forall>nxt\<in>set pre. ID m \<noteq> [] \<and> ID m \<notin> ID ` set pre \<and> Previous nxt = Previous m \<longrightarrow>
         findMigrationsToApply ms applied targetID =
           Some (Failed (DuplicatePrevious (Previous m) (ID nxt))))"
      using first_loop_reports(1) [OF h1 h2 h3 h4, of applied targetID]
        first_loop_reports(2) [OF h1 h2 h3 h4, of _ applied targetID]
        first_loop_reports(3) [OF h1 h2 h3 h4, of _ applied targetID]
      by simp
  qed
  show "\<forall>d1 d2 rest.
      [] \<notin> ID ` set ms \<and> distinct (map ID ms) \<and> distinct (map Previous ms) \<and>
      dangling ms = d1 # d2 # rest \<longrightarrow>
      findMigrationsToApply ms applied targetID =
        Some (Failed (InvalidPrevious (ID d2) (Previous d2)))"
  proof (intro allI impI)
    fix d1 d2 rest
    assume "[] \<notin> ID ` set ms \<and> distinct (map ID ms) \<and> distinct (map Previous ms) \<and>
      dangling ms = d1 # d2 # rest"
    then show "findMigrationsToApply ms applied targetID =
        Some (Failed (InvalidPrevious (ID d2) (Previous d2)))"
      by (intro second_loop_reports [of ms d1 d2 rest]) simp_all
  qed
  show "\<not> wellFormed ms \<longrightarrow>
      (\<exists>pre m post. ms = pre @ m # post \<and>
         [] \<notin> ID ` set pre \<and> distinct (map ID pre) \<and> distinct (map Previous pre) \<and>
         (ID m = [] \<or> ID m \<in> ID ` set pre \<or> Previous m \<in> Previous ` set pre)) \<or>
      ([] \<notin> ID ` set ms \<and> distinct (map ID ms) \<and> distinct (map Previous ms) \<and>
       (\<exists>d1 d2 rest. dangling ms = d1 # d2 # rest))"
    using not_wellFormed_cases [of ms] by (intro impI)
qed

text \<open>
  Witness for C6: the test "no corresponding applied migration detected" of the package
  (shortened), the same list with a matching applied id, a list that repeats an id and a
  list with two dangling previous ids.
\<close>

theorem correlation_check_witness:
  "[''4'', ''5''] \<noteq> [] \<and>
   Previous (mig [] ''1'' :: unit Migration) \<notin> set [''4'', ''5''] \<and>
   Previous (mig ''1'' ''2'' :: unit Migration) \<notin> set [''4'', ''5''] \<and>
   wellFormed [mig [] ''1'', mig ''1'' ''2'' :: unit Migration] \<and>
   findMigrationsToApply [mig [] ''1'', mig ''1'' ''2'' :: unit Migration] [''4'', ''5''] [] =
     Some (Failed NotCorrelated) \<and>
   Previous (mig ''1'' ''2'' :: unit Migration) \<in> set [''1''] \<and>
   findMigrationsToApply [mig [] ''1'', mig ''1'' ''2'' :: unit Migration] [''1''] [] \<noteq>
     Some (Failed NotCorrelated) \<and>
   findMigrationsToApply [mig [] ''1'', mig ''2'' ''1'' :: unit Migration] [''4'', ''5''] [] =
     Some (Failed (DuplicateID ''1'' [])) \<and>
   findMigrationsToApply [mig ''a'' ''1'', mig ''b'' ''2'' :: unit Migration] [''4'', ''5''] [] =
     Some (Failed (InvalidPrevious ''2'' ''b''))"
proof -
  have w: "wellFormed [mig [] ''1'', mig ''1'' ''2'' :: unit Migration]"
    by (simp add: wellFormed_def dangling_def mig_def)
  have n: "[''4'', ''5''] \<noteq> [] \<and>
     (\<forall>m\<in>set [mig [] ''1'', mig ''1'' ''2'' :: unit Migration]. Previous m \<notin> set [''4'', ''5''])"
    by (simp add: mig_def)
  have y: "[''1''] = [] \<or>
     (\<exists>m\<in>set [mig [] ''1'', mig ''1'' ''2'' :: unit Migration]. Previous m \<in> set [''1''])"
    by (simp add: mig_def)
  have a: "findMigrationsToApply [mig [] ''1'', mig ''1'' ''2'' :: unit Migration] [''4'', ''5''] [] =
     Some (Failed NotCorrelated)"
    using correlation_check [of "[''4'', ''5'']" "[mig [] ''1'', mig ''1'' ''2'' :: unit Migration]" "[]",
        THEN conjunct1, rule_format, OF n, THEN conjunct2, rule_format, OF w] .
  have b: "findMigrationsToApply [mig [] ''1'', mig ''1'' ''2'' :: unit Migration] [''1''] [] \<noteq>
     Some (Failed NotCorrelated)"
    using correlation_check [of "[''1'']" "[mig [] ''1'', mig ''1'' ''2'' :: unit Migration]" "[]",
        THEN conjunct2, THEN conjunct1, rule_format, OF y] .
  note t = correlation_check [of "[''4'', ''5'']" "[mig [] ''1'', mig ''2'' ''1'' :: unit Migration]" "[]"]
  have "\<forall>prev\<in>set [mig [] ''1'' :: unit Migration].
          ID (mig ''2'' ''1'' :: unit Migration) \<noteq> [] \<and> ID prev = ID (mig ''2'' ''1'' :: unit Migration) \<longrightarrow>
          findMigrationsToApply [mig [] ''1'', mig ''2'' ''1'' :: unit Migration] [''4'', ''5''] [] =
            Some (Failed (DuplicateID (ID (mig ''2'' ''1'' :: unit Migration)) (Previous prev)))"
    using t [THEN conjunct2, THEN conjunct2, THEN conjunct2, THEN conjunct1, rule_format,
             of "[mig [] ''1'']" "mig ''2'' ''1''" "[]"]
    by (simp add: mig_def)
  then have c: "findMigrationsToApply [mig [] ''1'', mig ''2'' ''1'' :: unit Migration] [''4'', ''5''] [] =
     Some (Failed (DuplicateID ''1'' []))"
    by (simp add: mig_def)
  have "dangling [mig ''a'' ''1'', mig ''b'' ''2'' :: unit Migration] =
          mig ''a'' ''1'' # mig ''b'' ''2'' # []"
    by (simp add: dangling_def mig_def)
  then have "findMigrationsToApply [mig ''a'' ''1'', mig ''b'' ''2'' :: unit Migration] [''4'', ''5''] [] =
     Some (Failed (InvalidPrevious (ID (mig ''b'' ''2'' :: unit Migration)) (Previous (mig ''b'' ''2'' :: unit Migration))))"
    using correlation_check [of "[''4'', ''5'']" "[mig ''a'' ''1'', mig ''b'' ''2'' :: unit Migration]" "[]",
        THEN conjunct2, THEN conjunct2, THEN conjunct2, THEN conjunct2, THEN conjunct1, rule_format,
        of "mig ''a'' ''1''" "mig ''b'' ''2''" "[]"]
    by (simp add: mig_def)
  then have d: "findMigrationsToApply [mig ''a'' ''1'', mig ''b'' ''2'' :: unit Migration] [''4'', ''5''] [] =
     Some (Failed (InvalidPrevious ''2'' ''b''))"
    by (simp add: mig_def)
  show ?thesis using w a b c d by (simp add: mig_def)
qed

text \<open>
  Counterexample to C6 as stated (the error returned is the correlation error): the
  applied list is not empty and matches no previous, but the empty id is reported.
\<close>

theorem empty_id_reported_first:
  "findMigrationsToApply [mig [] [] :: unit Migration] [''x''] [] = Some (Failed EmptyID)"
  by (simp add: findMigrationsToApply_def mig_def)

text \<open>
  \<^bold>\<open>C7\<close> (an unknown dialect is fatal before any database access). For a dialect name
  other than "sqlite3" and "mysql", Upgrade and UpgradeToLatest end in the panic of
  newDialectSupp, not in an error return, and the trace is the one they started with: no
  call was made.
\<close>

theorem unknown_dialect_panics_before_database_access:
  assumes "dialect \<noteq> DialectSQLite" "dialect \<noteq> DialectMySQL"
  shows "Upgrade drv dialect targetMigration migrations tr =
           Some (Panicked (UnsupportedDialect dialect), tr) \<and>
         UpgradeToLatest drv dialect migrations tr =
           Some (Panicked (UnsupportedDialect dialect), tr)"
  using assms by (simp add: Upgrade_def UpgradeToLatest_def newDialectSupp_def)

text \<open>
  Witness for C7: the dialect name "postgres".
\<close>

theorem unknown_dialect_panics_before_database_access_witness:
  "''postgres'' \<noteq> DialectSQLite \<and> ''postgres'' \<noteq> DialectMySQL \<and>
   Upgrade okDriver ''postgres'' ''2'' [mig [] ''1'', mig ''1'' ''2''] [] =
     Some (Panicked (UnsupportedDialect ''postgres''), []) \<and>
   UpgradeToLatest okDriver ''postgres'' [mig [] ''1'', mig ''1'' ''2''] [] =
     Some (Panicked (UnsupportedDialect ''postgres''), [])"
proof -
  have a: "''postgres'' \<noteq> DialectSQLite" by (simp add: DialectSQLite_def)
  have b: "''postgres'' \<noteq> DialectMySQL" by (simp add: DialectMySQL_def)
  show ?thesis
    using a b unknown_dialect_panics_before_database_access [OF a b, of okDriver "''2''"
      "[mig [] ''1'', mig ''1'' ''2'']" "[]"]
    by (simp only: simp_thms)
qed

text \<open>
  \<^bold>\<open>C8\<close> (the nil anchor is dereferenced). When the first loop accepts the list, every
  previous is the id of a supplied migration (true of the empty list), no migration is
  applied and the target is empty or a supplied id, findMigrationsToApply panics with a nil
  dereference. Upgrade and UpgradeToLatest reach that panic whenever the log table is
  ensured, the foreign-key baseline set and the log read as empty: the panic comes after
  those calls (trace \<open>tr3\<close>), the first of which creates the log table.
\<close>

theorem nil_anchor_is_dereferenced:
  assumes "[] \<notin> ID ` set ms" "distinct (map ID ms)" "distinct (map Previous ms)"
    and "Previous ` set ms \<subseteq> ID ` set ms"
    and "targetID = [] \<or> targetID \<in> ID ` set ms"
  shows "findMigrationsToApply ms [] targetID = Some (Panicked NilDereference) \<and>
         (newDialectSupp dialect = Returned ds \<and>
          ensureMigrationLog ds drv OnDB tr = (Returned (), tr1) \<and>
          ensureFKChecksEnabled ds drv OnDB tr1 = (Returned (), tr2) \<and>
          getAppliedMigrations drv OnDB tr2 = (Returned [], tr3) \<longrightarrow>
          Upgrade drv dialect targetID ms tr = Some (Panicked NilDereference, tr3) \<and>
          UpgradeToLatest drv dialect ms tr = Some (Panicked NilDereference, tr3) \<and>
          (\<exists>rest. tr3 = tr @ ExecCall OnDB createMigrationsSQL [] # rest))"
proof -
  have a: "findMigrationsToApply ms [] targetID = Some (Panicked NilDereference)"
    using assms by (intro no_dangling_panics) simp_all
  have b: "findMigrationsToApply ms [] [] = Some (Panicked NilDereference)"
    using assms by (intro no_dangling_panics) simp_all
  have c: "\<exists>rest. tr3 = tr @ ExecCall OnDB createMigrationsSQL [] # rest"
    if "ensureMigrationLog ds drv OnDB tr = (Returned (), tr1)"
      and "ensureFKChecksEnabled ds drv OnDB tr1 = (Returned (), tr2)"
      and "getAppliedMigrations drv OnDB tr2 = (Returned [], tr3)"
  proof -
    have 1: "tr1 = tr @ [ExecCall OnDB createMigrationsSQL []]"
      using that(1)
      by (cases ds) (auto simp: ensureMigrationsHistoryTableExists_def Exec_def split: option.splits)
    have 2: "\<exists>r. tr2 = tr1 @ r"
      using that(2) by (cases ds) (auto simp: Exec_def split: option.splits)
    have 3: "\<exists>r. tr3 = tr2 @ r"
      using that(3)
      by (auto simp: getAppliedMigrations_def Query_def split: sum.splits prod.splits)
    show ?thesis using 1 2 3 by auto
  qed
  show ?thesis
    using a b c by (simp add: Upgrade_def UpgradeToLatest_def)
qed

text \<open>
  Witness for C8: no migrations at all, through UpgradeToLatest on SQLite (the three calls
  before the panic are in the trace), and a cycle of two migrations.
\<close>

theorem nil_anchor_is_dereferenced_witness:
  "findMigrationsToApply ([] :: hook Migration list) [] [] = Some (Panicked NilDereference) \<and>
   UpgradeToLatest okDriver DialectSQLite [] [] =
     Some (Panicked NilDereference,
           [ExecCall OnDB createMigrationsSQL [],
            ExecCall OnDB ''PRAGMA foreign_keys = ON;'' [],
            QueryCall OnDB ''SELECT id FROM migrations'']) \<and>
   findMigrationsToApply [mig ''2'' ''1'', mig ''1'' ''2'' :: hook Migration] [] ''2'' =
     Some (Panicked NilDereference)"
proof -
  have d: "newDialectSupp DialectSQLite = Returned SqliteSupp"
    by (simp add: newDialectSupp_def)
  have l: "ensureMigrationLog SqliteSupp okDriver OnDB [] =
             (Returned (), [ExecCall OnDB createMigrationsSQL []])"
    by (simp add: ensureMigrationsHistoryTableExists_def Exec_def okDriver_def)
  have f: "ensureFKChecksEnabled SqliteSupp okDriver OnDB [ExecCall OnDB createMigrationsSQL []] =
             (Returned (), [ExecCall OnDB createMigrationsSQL [],
                            ExecCall OnDB ''PRAGMA foreign_keys = ON;'' []])"
    by (simp add: Exec_def okDriver_def)
  have g: "getAppliedMigrations okDriver OnDB
             [ExecCall OnDB createMigrationsSQL [], ExecCall OnDB ''PRAGMA foreign_keys = ON;'' []] =
             (Returned [], [ExecCall OnDB createMigrationsSQL [],
                            ExecCall OnDB ''PRAGMA foreign_keys = ON;'' [],
                            QueryCall OnDB ''SELECT id FROM migrations''])"
    by (simp add: getAppliedMigrations_def Query_def okDriver_def scanEachRow_def)
  have e: "findMigrationsToApply ([] :: hook Migration list) [] [] = Some (Panicked NilDereference) \<and>
     UpgradeToLatest okDriver DialectSQLite [] [] =
     Some (Panicked NilDereference,
           [ExecCall OnDB createMigrationsSQL [],
            ExecCall OnDB ''PRAGMA foreign_keys = ON;'' [],
            QueryCall OnDB ''SELECT id FROM migrations''])"
    using nil_anchor_is_dereferenced [of "[] :: hook Migration list" "[]" DialectSQLite SqliteSupp
        okDriver "[]" "[ExecCall OnDB createMigrationsSQL []]"
        "[ExecCall OnDB createMigrationsSQL [], ExecCall OnDB ''PRAGMA foreign_keys = ON;'' []]"
        "[ExecCall OnDB createMigrationsSQL [], ExecCall OnDB ''PRAGMA foreign_keys = ON;'' [],
          QueryCall OnDB ''SELECT id FROM migrations'']"] d l f g
    by simp
  have c: "findMigrationsToApply [mig ''2'' ''1'', mig ''1'' ''2'' :: hook Migration] [] ''2'' =
     Some (Panicked NilDereference)"
    using nil_anchor_is_dereferenced [of "[mig ''2'' ''1'', mig ''1'' ''2'' :: hook Migration]" "''2''"]
    by (simp add: mig_def)
  show ?thesis using e c by simp
qed

text \<open>
  \<^bold>\<open>C9\<close> (the result starts right after the last applied migration). Whenever a result
  is returned, the walk has built a list \<open>ordered\<close> (the resolved total order; for a valid
  migration set it is the chain itself) and the result is a segment of it that starts at a
  position \<open>lo\<close>: every applied position is below \<open>lo\<close>, and \<open>lo\<close> is 0 or one more
  than an applied position, so \<open>lo\<close> is one more than the highest applied position. No
  migration at or before an applied position is in the result, applied itself or not.
\<close>

theorem result_starts_after_latest_applied:
  assumes "findMigrationsToApply ms applied targetID = Some (Returned res)"
  shows "\<exists>mM rM a ordered lo n.
           indexMigrations (set applied) ms (Map.empty, Map.empty, set applied = {}) =
             Inr (mM, rM, True) \<and>
           findInitial mM ms None = Inr (Some a) \<and>
           walkChain rM mM a [] = Some (map Some ordered) \<and>
           res = map Some (take n (drop lo ordered)) \<and>
           (\<forall>j<length ordered. ID (ordered ! j) \<in> set applied \<longrightarrow> j < lo) \<and>
           (lo = 0 \<or> lo \<le> length ordered \<and> ID (ordered ! (lo - 1)) \<in> set applied) \<and>
           (\<forall>k<length ordered. ID (ordered ! k) \<in> set applied \<longrightarrow>
              (\<forall>j\<le>k. Some (ordered ! j) \<notin> set res)) \<and>
           (\<forall>a' c. validChain a' c \<and> mset ms = mset c \<longrightarrow> ordered = c)"
proof -
  obtain mM rM a ordered where
    i: "indexMigrations (set applied) ms (Map.empty, Map.empty, set applied = {}) = Inr (mM, rM, True)"
    and f: "findInitial mM ms None = Inr (Some a)"
    and w: "walkChain rM mM a [] = Some (map Some ordered)"
    and s: "selectRange (set applied) targetID (map Some ordered) = Returned res"
    using findMigrationsToApply_Returned [OF assms] by blast
  note m = indexMigrations_maps [OF i]
  have an: "a \<notin> ID ` set ms"
    using f unfolding m(1) by (rule findInitial_anchor)
  obtain c where c: "walkChain (byPrevious ms) (byID ms) a [] = Some (map Some c)"
    and dc: "distinct (map ID c)"
    using walkChain_from_anchor [OF m(4) an] by blast
  have "map Some c = map Some ordered" using c w unfolding m(1,2) by simp
  then have "c = ordered" by simp
  then have d: "distinct ordered" using dc by (simp add: distinct_map)
  obtain lo n where r: "res = take n (drop lo (map Some ordered))"
    and l1: "\<forall>j<length ordered. ID (ordered ! j) \<in> set applied \<longrightarrow> j < lo"
    and l2: "lo = 0 \<or> (lo \<le> length ordered \<and> ID (ordered ! (lo - 1)) \<in> set applied)"
    using selectRange_map_Some [OF s] by blast
  have r': "res = map Some (take n (drop lo ordered))"
    using r by (simp add: take_map drop_map)
  have ex: "\<forall>k<length ordered. ID (ordered ! k) \<in> set applied \<longrightarrow>
              (\<forall>j\<le>k. Some (ordered ! j) \<notin> set res)"
  proof (intro allI impI notI)
    fix k j assume k: "k < length ordered" "ID (ordered ! k) \<in> set applied" and j: "j \<le> k"
      and mem: "Some (ordered ! j) \<in> set res"
    have "k < lo" using l1 k by blast
    have "ordered ! j \<in> set (take n (drop lo ordered))" using mem unfolding r' by auto
    then have "ordered ! j \<in> set (drop lo ordered)" by (auto dest: in_set_takeD)
    then obtain i where i: "i < length (drop lo ordered)" "drop lo ordered ! i = ordered ! j"
      by (auto simp: in_set_conv_nth)
    then have "ordered ! (lo + i) = ordered ! j" "lo + i < length ordered" by auto
    then have "lo + i = j" using d k j by (simp add: nth_eq_iff_index_eq)
    then show False using \<open>k < lo\<close> j by simp
  qed
  have vc: "\<forall>a' c. validChain a' c \<and> mset ms = mset c \<longrightarrow> ordered = c"
  proof (intro allI impI)
    fix a' c assume v: "validChain a' c \<and> mset ms = mset c"
    then have v1: "validChain a' c" and v2: "mset ms = mset c" by simp_all
    obtain d where d: "filter (\<lambda>m. byID ms (Previous m) = None) ms = [d]" "Previous d = a"
      using findInitial_Some [OF f [unfolded m(1)]] by blast
    have "dangling ms = [d]" using d(1) by (simp add: dangling_def byID_None)
    moreover have "dangling ms = dangling c"
      using v2 validChain_dangling [OF v1] by (intro perm_dangling_eq) simp_all
    ultimately have "d = hd c" using validChain_dangling [OF v1] by simp
    then have "a = a'" using d(2) validChain_hd [OF v1] by simp
    have e: "byID ms = byID c" "byPrevious ms = byPrevious c"
      using v2 validChain_wellFormed [OF v1]
      by (auto simp only: wellFormed_def intro: perm_byID perm_byPrevious)
    have "map Some ordered = map Some c"
      using w validChain_walk [OF v1] unfolding m(1,2) e \<open>a = a'\<close> by simp
    then show "ordered = c" by simp
  qed
  show ?thesis using i f w r' l1 l2 ex vc by blast
qed

text \<open>
  Witness for C9: the test "with some migrations applied" of the package. Only "2" is
  applied; "1" is not, and it is not returned.
\<close>

theorem result_starts_after_latest_applied_witness:
  "findMigrationsToApply
     [mig [] ''1'', mig ''1'' ''2'', mig ''2'' ''3'', mig ''3'' ''4'', mig ''4'' ''5'' :: unit Migration]
     [''2''] [] =
     Some (Returned [Some (mig ''2'' ''3''), Some (mig ''3'' ''4''), Some (mig ''4'' ''5'')]) \<and>
   Some (mig [] ''1'' :: unit Migration) \<notin>
     set [Some (mig ''2'' ''3''), Some (mig ''3'' ''4''), Some (mig ''4'' ''5'')]"
proof -
  let ?c = "[mig [] ''1'', mig ''1'' ''2'', mig ''2'' ''3'', mig ''3'' ''4'', mig ''4'' ''5'' :: unit Migration]"
  let ?res = "[Some (mig ''2'' ''3''), Some (mig ''3'' ''4''), Some (mig ''4'' ''5'' :: unit Migration)]"
  have v: "validChain [] ?c \<and> mset ?c = mset ?c"
    by (simp add: validChain_def mig_def)
  have r: "findMigrationsToApply ?c [''2''] [] = Some (Returned ?res)"
    by code_simp
  obtain ordered where
    ex: "\<forall>k<length ordered. ID (ordered ! k) \<in> set [''2''] \<longrightarrow>
           (\<forall>j\<le>k. Some (ordered ! j) \<notin> set ?res)"
    and vc: "\<forall>a' c. validChain a' c \<and> mset ?c = mset c \<longrightarrow> ordered = c"
    using result_starts_after_latest_applied [OF r] by blast
  have o: "ordered = ?c" using vc v by blast
  have "Some (?c ! 0) \<notin> set ?res"
  proof (rule ex [unfolded o, rule_format, of 1 0])
    show "1 < length ?c" by simp
    show "ID (?c ! 1) \<in> set [''2'']" by (simp add: mig_def)
    show "(0::nat) \<le> 1" by simp
  qed
  then show ?thesis using r by simp
qed

text \<open>
  \<^bold>\<open>C10\<close> (the MySQL toggle is a no-op). For the MySQL dialect disableFKs and enableFKs
  return nil and leave the trace as it is (no call), so applyMigration does the same with
  \<^verbatim>\<open>DisableFK\<close> set as without it: same outcome, same calls.
\<close>

theorem mysql_fk_toggle_is_noop:
  "disableFKs MysqlSupp drv q tr = (Returned (), tr) \<and>
   enableFKs MysqlSupp drv q tr = (Returned (), tr) \<and>
   applyMigration drv MysqlSupp (m\<lparr>DisableFK := True\<rparr>) tr =
     applyMigration drv MysqlSupp (m\<lparr>DisableFK := False\<rparr>) tr"
  by (simp add: applyMigration_def migrationTx_DisableFK split: prod.splits outcome.splits)

end
